theory Spec2Isabelle
  imports Main
begin

section \<open>The blocking channel\<close>

text \<open>
  \<^verbatim>\<open>class Channel\<close> of \<^verbatim>\<open>handleWs.ts\<close> owns two arrays: \<^verbatim>\<open>takers\<close>, the
  \<^verbatim>\<open>resolve\<close> callbacks of the promises handed out by \<^verbatim>\<open>take()\<close>, and
  \<^verbatim>\<open>buffer\<close>, the messages nobody has asked for yet. A \<^verbatim>\<open>resolve\<close> callback is
  identified with the promise it settles; promises are numbered in the order in which
  \<^verbatim>\<open>new Promise\<close> creates them.
\<close>

type_synonym promise = nat

record Channel =
  takers :: "promise list"
  buffer :: "string list"

definition new_Channel :: Channel where
  "new_Channel = \<lparr>takers = [], buffer = []\<rparr>"

text \<open>
  \<^verbatim>\<open>
  private callTakers() {
    while (this.takers.length > 0 && this.buffer.length > 0) {
      const taker = this.takers.shift()!;
      const payload = this.buffer.shift()!;
      taker(payload);
    }
  }
  \<close>
  The model returns the calls \<^verbatim>\<open>taker(payload)\<close> the loop makes, in the order it makes
  them, beside the channel it leaves. \<^verbatim>\<open>shift()\<close> is only reached on non-empty arrays
  (the loop condition), where it is \<open>hd\<close> and \<open>tl\<close>.
\<close>

function callTakers :: "Channel \<Rightarrow> (promise \<times> string) list \<times> Channel" where
  "callTakers c =
     (if length (takers c) > 0 \<and> length (buffer c) > 0 then
        let taker = hd (takers c);
            c1 = c\<lparr>takers := tl (takers c)\<rparr>;
            payload = hd (buffer c1);
            c2 = c1\<lparr>buffer := tl (buffer c1)\<rparr>
        in case callTakers c2 of (calls, c3) \<Rightarrow> ((taker, payload) # calls, c3)
      else ([], c))"
  by pat_completeness auto
termination
  by (relation "measure (\<lambda>c. length (takers c))") auto

declare callTakers.simps [simp del]

text \<open>
  \<^verbatim>\<open>
  take() {
    const p = new Promise<string>((resolve) => { this.takers.push(resolve); });
    this.callTakers();
    return p;
  }
  put(message: string) {
    this.buffer.push(message);
    this.callTakers();
  }
  \<close>
  The executor of \<^verbatim>\<open>new Promise\<close> runs at once, so the push precedes \<^verbatim>\<open>callTakers\<close>.
  \<open>Channel_take p\<close> is \<^verbatim>\<open>take()\<close> when the promise it creates is \<open>p\<close>.
\<close>

definition Channel_take :: "promise \<Rightarrow> Channel \<Rightarrow> (promise \<times> string) list \<times> Channel" where
  "Channel_take p c = callTakers (c\<lparr>takers := takers c @ [p]\<rparr>)"

definition Channel_put :: "string \<Rightarrow> Channel \<Rightarrow> (promise \<times> string) list \<times> Channel" where
  "Channel_put message c = callTakers (c\<lparr>buffer := buffer c @ [message]\<rparr>)"

text \<open>
  \<^verbatim>\<open>
  async listen(sock: WebSocket) {
    for await (const event of sock) {
      if (typeof event === "string") { this.put(event); }
    }
  }
  \<close>
  The events of the socket of \<^verbatim>\<open>std@0.74.0/ws\<close> are strings, binary frames, and close,
  ping and pong events; only the first pass the \<^verbatim>\<open>typeof\<close> test. \<open>listen_event\<close> is one
  turn of the \<^verbatim>\<open>for await\<close> loop. (A socket has no event after its close event; the
  statements below hold for every list of events, those lists among them.)
\<close>

datatype WebSocketEvent = Str string | Binary | Close | Ping | Pong

fun listen_event :: "WebSocketEvent \<Rightarrow> Channel \<Rightarrow> (promise \<times> string) list \<times> Channel" where
  "listen_event (Str event) c = Channel_put event c"
| "listen_event _ c = ([], c)"

subsection \<open>Sequences of calls on one channel\<close>

text \<open>
  A channel in use: the channel object, the promises settled so far, each with the value
  it was resolved with, in the order of the \<^verbatim>\<open>taker(payload)\<close> calls, and the number of
  promises \<^verbatim>\<open>take()\<close> has created.
\<close>

record channel_use =
  chan :: Channel
  settled :: "(promise \<times> string) list"
  promises :: nat

definition new_use :: channel_use where
  "new_use = \<lparr>chan = new_Channel, settled = [], promises = 0\<rparr>"

datatype channel_call = Take | Put string | Listen WebSocketEvent

fun call :: "channel_call \<Rightarrow> channel_use \<Rightarrow> channel_use" where
  "call Take u =
     (case Channel_take (promises u) (chan u) of
        (calls, c) \<Rightarrow> \<lparr>chan = c, settled = settled u @ calls, promises = Suc (promises u)\<rparr>)"
| "call (Put message) u =
     (case Channel_put message (chan u) of
        (calls, c) \<Rightarrow> u\<lparr>chan := c, settled := settled u @ calls\<rparr>)"
| "call (Listen event) u =
     (case listen_event event (chan u) of
        (calls, c) \<Rightarrow> u\<lparr>chan := c, settled := settled u @ calls\<rparr>)"

fun calls_from :: "channel_use \<Rightarrow> channel_call list \<Rightarrow> channel_use" where
  "calls_from u [] = u"
| "calls_from u (x # xs) = calls_from (call x u) xs"

text \<open>The values passed to \<^verbatim>\<open>put\<close>, and the number of \<^verbatim>\<open>take()\<close> calls, of a sequence.\<close>

fun put_values :: "channel_call list \<Rightarrow> string list" where
  "put_values [] = []"
| "put_values (Put message # xs) = message # put_values xs"
| "put_values (Listen (Str event) # xs) = event # put_values xs"
| "put_values (_ # xs) = put_values xs"

fun take_count :: "channel_call list \<Rightarrow> nat" where
  "take_count [] = 0"
| "take_count (Take # xs) = Suc (take_count xs)"
| "take_count (_ # xs) = take_count xs"

text \<open>
  The channel is drained when it is not the case that a request and a value both wait.
\<close>

definition drained :: "Channel \<Rightarrow> bool" where
  "drained c \<longleftrightarrow> \<not> (takers c \<noteq> [] \<and> buffer c \<noteq> [])"

text \<open>
  The bookkeeping of a sequence of calls \<open>xs\<close> that has led to the use \<open>u\<close>: the promises
  settled and the promises pending are, in this order, all the promises created; the values
  delivered and the values buffered are, in this order, all the values put; and the channel
  is drained.
\<close>

definition paired :: "channel_call list \<Rightarrow> channel_use \<Rightarrow> bool" where
  "paired xs u \<longleftrightarrow>
     map fst (settled u) @ takers (chan u) = [0..<take_count xs] \<and>
     promises u = take_count xs \<and>
     map snd (settled u) @ buffer (chan u) = put_values xs \<and>
     drained (chan u)"

section \<open>The library functions the script calls\<close>

text \<open>
  A \<open>string\<close> is read as a JavaScript string whose code units are all below U+0100, one
  \<open>char\<close> for each.
\<close>

subsection \<open>\<^verbatim>\<open>toLowerCase\<close> and \<^verbatim>\<open>includes\<close>\<close>

text \<open>
  Below U+0100 the letters with a lower case are A to Z and U+00C0 to U+00DE without the
  multiplication sign U+00D7; the lower case is 32 code points up.
\<close>

definition toLowerCase_char :: "char \<Rightarrow> char" where
  "toLowerCase_char c =
     (let n = (of_char c :: nat)
      in if (65 \<le> n \<and> n \<le> 90) \<or> (192 \<le> n \<and> n \<le> 222 \<and> n \<noteq> 215)
         then char_of (n + 32) else c)"

definition toLowerCase :: "string \<Rightarrow> string" where
  "toLowerCase s = map toLowerCase_char s"

fun startsWith :: "string \<Rightarrow> string \<Rightarrow> bool" where
  "startsWith s [] = True"
| "startsWith [] (c # cs) = False"
| "startsWith (d # ds) (c # cs) = (d = c \<and> startsWith ds cs)"

fun "includes" :: "string \<Rightarrow> string \<Rightarrow> bool" where
  "includes [] searchString = (searchString = [])"
| "includes (d # ds) searchString = (startsWith (d # ds) searchString \<or> includes ds searchString)"

subsection \<open>Numbers\<close>

text \<open>
  The values of \<^verbatim>\<open>Number(message)\<close> and of the running total are the double-precision
  numbers of JavaScript. A finite double is an integer, \<open>Whole n\<close>, or an odd integer over a
  power of two, \<open>Fraction m k\<close> for \<open>m / 2^k\<close> with \<open>k > 0\<close>. The two zeros are one value
  here: the script only adds numbers and prints them, and both zeros print as \<^verbatim>\<open>0\<close>.
\<close>

datatype number = NaN | Whole int | Fraction int nat | PlusInfinity | MinusInfinity

definition isNaN :: "number \<Rightarrow> bool" where
  "isNaN num \<longleftrightarrow> num = NaN"

text \<open>The integers up to \<open>2^53\<close> in magnitude, all of which are doubles.\<close>

definition safe :: "int \<Rightarrow> bool" where
  "safe n \<longleftrightarrow> \<bar>n\<bar> \<le> 9007199254740992"

text \<open>
  Rounding a positive quotient \<open>p / q\<close> to a double, to the nearest, ties to the even
  significand. \<open>bits p\<close> is the length of \<open>p\<close> in binary, \<open>floor_log2 p q\<close> the exponent
  \<open>e\<close> with \<open>2^e \<le> p / q < 2^(e + 1)\<close>. The significand has 53 bits, and the last place
  is never below \<open>2^-1074\<close>; a result of \<open>2^1024\<close> or more is infinite.
\<close>

function bits :: "int \<Rightarrow> nat" where
  "bits n = (if n \<le> 0 then 0 else Suc (bits (n div 2)))"
  by pat_completeness auto
termination
  by (relation "measure nat") auto

declare bits.simps [simp del]

definition floor_log2 :: "int \<Rightarrow> int \<Rightarrow> int" where
  "floor_log2 p q =
     (let d = int (bits p) - int (bits q)
      in if (if 0 \<le> d then q * 2 ^ nat d \<le> p else q \<le> p * 2 ^ nat (- d)) then d else d - 1)"

definition round_half_even :: "int \<Rightarrow> int \<Rightarrow> int" where
  "round_half_even num den =
     (let n = num div den; r = num mod den
      in if 2 * r < den then n
         else if den < 2 * r then n + 1
         else if even n then n else n + 1)"

fun dyadic :: "int \<Rightarrow> nat \<Rightarrow> number" where
  "dyadic m 0 = Whole m"
| "dyadic m (Suc k) = (if even m then dyadic (m div 2) k else Fraction m (Suc k))"

definition signed :: "bool \<Rightarrow> int \<Rightarrow> int" where
  "signed negative n = (if negative then - n else n)"

definition infinity :: "bool \<Rightarrow> number" where
  "infinity negative = (if negative then MinusInfinity else PlusInfinity)"

definition double_of :: "bool \<Rightarrow> int \<Rightarrow> int \<Rightarrow> number" where
  "double_of negative p q =
     (if p = 0 then Whole 0
      else
        let e = floor_log2 p q
        in if 1024 \<le> e then infinity negative
           else
             let u = max (e - 52) (- 1074)
             in if 0 \<le> u then
                  (let v = round_half_even p (q * 2 ^ nat u) * 2 ^ nat u
                   in if 2 ^ 1024 \<le> v then infinity negative else Whole (signed negative v))
                else
                  dyadic (signed negative (round_half_even (p * 2 ^ nat (- u)) q)) (nat (- u)))"

text \<open>
  \<^verbatim>\<open>result += num\<close>: the exact sum of two finite doubles, rounded; the sums with NaN and
  with the infinities as IEEE 754 has them.
\<close>

fun numerator :: "number \<Rightarrow> int" where
  "numerator (Whole n) = n"
| "numerator (Fraction m k) = m"
| "numerator _ = 0"

fun denominator :: "number \<Rightarrow> int" where
  "denominator (Fraction m k) = 2 ^ k"
| "denominator _ = 1"

fun finite_number :: "number \<Rightarrow> bool" where
  "finite_number (Whole n) = True"
| "finite_number (Fraction m k) = True"
| "finite_number _ = False"

definition add :: "number \<Rightarrow> number \<Rightarrow> number" where
  "add x y =
     (if x = NaN \<or> y = NaN then NaN
      else if finite_number x \<and> finite_number y then
        (let s = numerator x * denominator y + numerator y * denominator x
         in double_of (s < 0) \<bar>s\<bar> (denominator x * denominator y))
      else if finite_number x then y
      else if finite_number y then x
      else if x = y then x
      else NaN)"

text \<open>
  \<^verbatim>\<open>Number(string)\<close> follows the grammar of \<^verbatim>\<open>StringNumericLiteral\<close>: white space is
  trimmed, the empty string is \<open>0\<close>, a decimal literal may have a sign, a fraction and an
  exponent, \<^verbatim>\<open>Infinity\<close> is a number, a hexadecimal, octal or binary integer literal has no
  sign, and everything else is NaN. The value is the double nearest to the number the
  literal denotes.
\<close>

definition isStrWhiteSpaceChar :: "char \<Rightarrow> bool" where
  "isStrWhiteSpaceChar c \<longleftrightarrow>
     c \<in> set [CHR 0x09, CHR 0x0A, CHR 0x0B, CHR 0x0C, CHR 0x0D, CHR 0x20, CHR 0xA0]"

definition trim :: "string \<Rightarrow> string" where
  "trim s = rev (dropWhile isStrWhiteSpaceChar (rev (dropWhile isStrWhiteSpaceChar s)))"

definition isDecimalDigit :: "char \<Rightarrow> bool" where
  "isDecimalDigit c \<longleftrightarrow> c \<in> set ''0123456789''"

definition isDecimalDigits :: "string \<Rightarrow> bool" where
  "isDecimalDigits s \<longleftrightarrow> s \<noteq> [] \<and> list_all isDecimalDigit s"

definition isSign :: "char \<Rightarrow> bool" where
  "isSign c \<longleftrightarrow> c = CHR ''+'' \<or> c = CHR ''-''"

fun isSignedInteger :: "string \<Rightarrow> bool" where
  "isSignedInteger [] = False"
| "isSignedInteger (c # cs) = (if isSign c then isDecimalDigits cs else isDecimalDigits (c # cs))"

fun isExponentPart :: "string \<Rightarrow> bool" where
  "isExponentPart [] = False"
| "isExponentPart (c # cs) = ((c = CHR ''e'' \<or> c = CHR ''E'') \<and> isSignedInteger cs)"

definition isStrUnsignedDecimalLiteral :: "string \<Rightarrow> bool" where
  "isStrUnsignedDecimalLiteral s \<longleftrightarrow>
     s = ''Infinity'' \<or>
     (let a = takeWhile isDecimalDigit s; r = dropWhile isDecimalDigit s
      in case r of
           [] \<Rightarrow> a \<noteq> []
         | c # r1 \<Rightarrow>
             if c = CHR ''.'' then
               let b = takeWhile isDecimalDigit r1; r2 = dropWhile isDecimalDigit r1
               in (a \<noteq> [] \<or> b \<noteq> []) \<and> (r2 = [] \<or> isExponentPart r2)
             else a \<noteq> [] \<and> isExponentPart r)"

fun isStrDecimalLiteral :: "string \<Rightarrow> bool" where
  "isStrDecimalLiteral [] = False"
| "isStrDecimalLiteral (c # cs) =
     (if isSign c then isStrUnsignedDecimalLiteral cs else isStrUnsignedDecimalLiteral (c # cs))"

fun isNonDecimalIntegerLiteral :: "string \<Rightarrow> bool" where
  "isNonDecimalIntegerLiteral (z # x # ds) =
     (z = CHR ''0'' \<and> ds \<noteq> [] \<and>
      ((x = CHR ''x'' \<or> x = CHR ''X'') \<and> list_all (\<lambda>d. d \<in> set ''0123456789abcdefABCDEF'') ds \<or>
       (x = CHR ''o'' \<or> x = CHR ''O'') \<and> list_all (\<lambda>d. d \<in> set ''01234567'') ds \<or>
       (x = CHR ''b'' \<or> x = CHR ''B'') \<and> list_all (\<lambda>d. d \<in> set ''01'') ds))"
| "isNonDecimalIntegerLiteral _ = False"

text \<open>The value of a digit, of a string of digits in a radix, and of a signed integer.\<close>

definition digit_value :: "char \<Rightarrow> int" where
  "digit_value c =
     (if c \<in> set ''abcdef'' then of_char c - 87
      else if c \<in> set ''ABCDEF'' then of_char c - 55
      else of_char c - 48)"

definition radix_value :: "int \<Rightarrow> string \<Rightarrow> int" where
  "radix_value radix s = foldl (\<lambda>n c. radix * n + digit_value c) 0 s"

definition decimal_value :: "string \<Rightarrow> int" where
  "decimal_value s = radix_value 10 s"

fun signed_value :: "string \<Rightarrow> int" where
  "signed_value [] = 0"
| "signed_value (c # cs) =
     (if c = CHR ''-'' then - decimal_value cs
      else if c = CHR ''+'' then decimal_value cs
      else decimal_value (c # cs))"

text \<open>
  The double of an unsigned decimal literal: the digits before and after the point are an
  integer, scaled by ten to the exponent less the number of digits after the point.
\<close>

definition unsigned_decimal :: "bool \<Rightarrow> string \<Rightarrow> number" where
  "unsigned_decimal negative s =
     (if s = ''Infinity'' then infinity negative
      else
        let a = takeWhile isDecimalDigit s;
            r = dropWhile isDecimalDigit s;
            r1 = (if r \<noteq> [] \<and> hd r = CHR ''.'' then tl r else r);
            b = (if r \<noteq> [] \<and> hd r = CHR ''.'' then takeWhile isDecimalDigit r1 else []);
            r2 = dropWhile isDecimalDigit r1;
            x = (if r2 = [] then 0 else signed_value (tl r2)) - int (length b);
            d = decimal_value (a @ b)
        in if 0 \<le> x then double_of negative (d * 10 ^ nat x) 1
           else double_of negative d (10 ^ nat (- x)))"

definition Number :: "string \<Rightarrow> number" where
  "Number s =
     (let t = trim s
      in if t = [] then Whole 0
         else if isStrDecimalLiteral t then
           (if hd t = CHR ''-'' then unsigned_decimal True (tl t)
            else if hd t = CHR ''+'' then unsigned_decimal False (tl t)
            else unsigned_decimal False t)
         else if isNonDecimalIntegerLiteral t then
           double_of False
             (radix_value
                (if hd (tl t) \<in> set ''xX'' then 16 else if hd (tl t) \<in> set ''oO'' then 8 else 2)
                (tl (tl t)))
             1
         else NaN)"

text \<open>
  The text of a number in a template literal, \<^verbatim>\<open>Number::toString\<close>. For a positive finite
  \<open>x = p / q\<close> it takes the decimal exponent \<open>n\<close> with \<open>10^(n - 1) \<le> x < 10^n\<close> and the
  fewest digits \<open>s\<close>, \<open>k\<close> of them, such that \<open>s * 10^(n - k)\<close> rounds to \<open>x\<close>; of two such
  \<open>s\<close> the nearer to \<open>x\<close>, and the even one when they are as near; seventeen digits are always
  enough. The digits are then
  laid out without an exponent when \<open>- 6 < n \<le> 21\<close>, and with one otherwise.
\<close>

function digits :: "int \<Rightarrow> string" where
  "digits n =
     (if n < 10 then [''0123456789'' ! nat n]
      else digits (n div 10) @ [''0123456789'' ! nat (n mod 10)])"
  by pat_completeness auto
termination
  by (relation "measure nat") auto

declare digits.simps [simp del]

definition decimal_exponent :: "int \<Rightarrow> int \<Rightarrow> int" where
  "decimal_exponent p q =
     (if q \<le> p then int (length (digits (p div q)))
      else 1 - int (length (digits ((q + p - 1) div p - 1))))"

text \<open>
  \<open>scaled p q j\<close> is \<open>(p / q) * 10^j\<close> as a numerator and a denominator; \<open>rounds_to\<close> tests
  whether \<open>s * 10^(n - k)\<close> rounds to \<open>p / q\<close>.
\<close>

definition scaled :: "int \<Rightarrow> int \<Rightarrow> int \<Rightarrow> int \<times> int" where
  "scaled p q j = (if 0 \<le> j then (p * 10 ^ nat j, q) else (p, q * 10 ^ nat (- j)))"

definition rounds_to :: "int \<Rightarrow> int \<Rightarrow> int \<Rightarrow> int \<Rightarrow> bool" where
  "rounds_to s j p q \<longleftrightarrow>
     (case scaled s 1 j of (a, b) \<Rightarrow> double_of False a b = double_of False p q)"

fun shortest :: "int \<Rightarrow> int \<Rightarrow> int \<Rightarrow> nat list \<Rightarrow> int \<times> nat" where
  "shortest p q n [] = (case scaled p q (17 - n) of (a, b) \<Rightarrow> (a div b, 17))"
| "shortest p q n (k # ks) =
     (case scaled p q (int k - n) of
        (a, b) \<Rightarrow>
          let lo = a div b; hi = lo + 1;
              lo_ok = rounds_to lo (n - int k) p q;
              hi_ok = rounds_to hi (n - int k) p q
          in if lo_ok \<and> (\<not> hi_ok \<or> 2 * (a mod b) < b \<or> 2 * (a mod b) = b \<and> even lo)
             then (lo, k)
             else if hi_ok then (hi, k)
             else shortest p q n ks)"

definition layout :: "string \<Rightarrow> int \<Rightarrow> string" where
  "layout ds n =
     (let k = int (length ds)
      in if k \<le> n \<and> n \<le> 21 then ds @ replicate (nat (n - k)) CHR ''0''
         else if 0 < n \<and> n \<le> 21 then take (nat n) ds @ ''.'' @ drop (nat n) ds
         else if - 6 < n \<and> n \<le> 0 then ''0.'' @ replicate (nat (- n)) CHR ''0'' @ ds
         else
           (if k = 1 then ds else [hd ds] @ ''.'' @ tl ds)
           @ ''e'' @ (if n - 1 < 0 then ''-'' else ''+'') @ digits \<bar>n - 1\<bar>)"

definition positive_text :: "int \<Rightarrow> int \<Rightarrow> string" where
  "positive_text p q =
     (let n = decimal_exponent p q
      in case shortest p q n [1..<18] of
           (s, k) \<Rightarrow> if s = 10 ^ k then layout ''1'' (n + 1) else layout (digits s) n)"

definition toString :: "number \<Rightarrow> string" where
  "toString x =
     (if x = NaN then ''NaN''
      else if x = PlusInfinity then ''Infinity''
      else if x = MinusInfinity then ''-Infinity''
      else if numerator x = 0 then ''0''
      else if numerator x < 0 then ''-'' @ positive_text (- numerator x) (denominator x)
      else positive_text (numerator x) (denominator x))"

section \<open>Effects and the conversation script\<close>

text \<open>
  \<^verbatim>\<open>
  const say = (text: string) => ({ type: "say", text } as const);
  const listen = () => ({ type: "listen" } as const);
  \<close>
  An effect is an object with a \<^verbatim>\<open>type\<close> tag; only \<^verbatim>\<open>say\<close> effects have a \<^verbatim>\<open>text\<close>.
\<close>

record effect =
  type :: string
  "text" :: "string option"

definition say :: "string \<Rightarrow> effect" where
  "say t = \<lparr>type = ''say'', text = Some t\<rparr>"

definition listen :: effect where
  "listen = \<lparr>type = ''listen'', text = None\<rparr>"

text \<open>
  What \<^verbatim>\<open>iter.next(current)\<close> returns: \<^verbatim>\<open>value\<close> is the effect yielded, or \<open>None\<close> for
  \<^verbatim>\<open>undefined\<close>, and \<^verbatim>\<open>done\<close> tells whether the generator has returned.
\<close>

record IteratorResult =
  "value" :: "effect option"
  "done" :: bool

definition yields :: "effect \<Rightarrow> IteratorResult" where
  "yields e = \<lparr>value = Some e, done = False\<rparr>"

definition returns :: IteratorResult where
  "returns = \<lparr>value = None, done = True\<rparr>"

subsection \<open>\<^verbatim>\<open>sumSubDialog\<close>\<close>

text \<open>
  \<^verbatim>\<open>
  function* sumSubDialog() {
    yield say("Okay, what numbers should we sum?");
    let result = 0;
    let message = yield listen();
    while (true) {
      const num = Number(message);
      if (isNaN(num)) { break; } else { result += num; }
      yield say("Got it!");
      message = yield listen();
    }
    yield say(`The result is: ${result}`);
  }
  \<close>
  A generator object is the place where it is suspended, with the local variables that are
  live there: before the first \<^verbatim>\<open>next\<close>; at the first \<^verbatim>\<open>yield say\<close>; at the
  \<^verbatim>\<open>yield listen()\<close> before the loop; at \<^verbatim>\<open>yield say("Got it!")\<close>; at the
  \<^verbatim>\<open>yield listen()\<close> inside the loop; at the last \<^verbatim>\<open>yield say\<close>; and returned.
\<close>

datatype sumSubDialog_state =
    Sum_start
  | Sum_at_okay
  | Sum_at_first_listen number
  | Sum_at_got_it number
  | Sum_at_listen number
  | Sum_at_result
  | Sum_returned

text \<open>The loop, entered with the message received by one of the two \<^verbatim>\<open>yield listen()\<close>.\<close>

definition sumSubDialog_loop :: "number \<Rightarrow> string \<Rightarrow> IteratorResult \<times> sumSubDialog_state" where
  "sumSubDialog_loop result message =
     (let num = Number message
      in if isNaN num then
           (yields (say (''The result is: '' @ toString result)), Sum_at_result)
         else
           (yields (say ''Got it!''), Sum_at_got_it (add result num)))"

fun sumSubDialog_next :: "sumSubDialog_state \<Rightarrow> string \<Rightarrow> IteratorResult \<times> sumSubDialog_state" where
  "sumSubDialog_next Sum_start _ =
     (yields (say ''Okay, what numbers should we sum?''), Sum_at_okay)"
| "sumSubDialog_next Sum_at_okay _ = (yields listen, Sum_at_first_listen (Whole 0))"
| "sumSubDialog_next (Sum_at_first_listen result) message = sumSubDialog_loop result message"
| "sumSubDialog_next (Sum_at_got_it result) _ = (yields listen, Sum_at_listen result)"
| "sumSubDialog_next (Sum_at_listen result) message = sumSubDialog_loop result message"
| "sumSubDialog_next Sum_at_result _ = (returns, Sum_returned)"
| "sumSubDialog_next Sum_returned _ = (returns, Sum_returned)"

subsection \<open>\<^verbatim>\<open>dialog\<close>\<close>

text \<open>
  \<^verbatim>\<open>
  function* dialog() {
    yield say('Welcome to "Do what I say BOT"');
    while (true) {
      const message: string = yield listen();
      if (message.toLowerCase().includes("time")) {
        yield say(`It is ${format(new Date(), "HH:mm:ss")}`);
      } else if (message.toLowerCase().includes("sum")) {
        yield* sumSubDialog();
      } else {
        yield say(`I don't know what to say!`);
      }
    }
  }
  \<close>
  The places where \<^verbatim>\<open>dialog\<close> is suspended: before the first \<^verbatim>\<open>next\<close>; at the welcome;
  at \<^verbatim>\<open>yield listen()\<close>; at the \<^verbatim>\<open>yield say\<close> of the time; inside \<^verbatim>\<open>yield*\<close>, with the
  state of the sub-generator; at the \<^verbatim>\<open>yield say\<close> of the fallback. The loop never ends,
  so there is no returned state.

  The first argument of \<open>dialog_next\<close> is the clock: the string
  \<^verbatim>\<open>format(new Date(), "HH:mm:ss")\<close> evaluates to during this call of \<^verbatim>\<open>next\<close>.
\<close>

datatype dialog_state =
    Dialog_start
  | Dialog_at_welcome
  | Dialog_at_listen
  | Dialog_at_time
  | Dialog_in_sum sumSubDialog_state
  | Dialog_at_fallback

text \<open>The head of the \<^verbatim>\<open>while (true)\<close> loop runs into \<^verbatim>\<open>yield listen()\<close>.\<close>

definition dialog_loop :: "IteratorResult \<times> dialog_state" where
  "dialog_loop = (yields listen, Dialog_at_listen)"

text \<open>
  \<^verbatim>\<open>yield*\<close> passes the value received to the sub-generator and yields what it yields;
  when the sub-generator returns, \<^verbatim>\<open>yield*\<close> is over, the \<^verbatim>\<open>if\<close> statement is over, and
  the loop goes round. The first \<^verbatim>\<open>next\<close> of the sub-generator receives \<^verbatim>\<open>undefined\<close>,
  which no state that can be first reads.
\<close>

definition yield_star :: "sumSubDialog_state \<Rightarrow> string \<Rightarrow> IteratorResult \<times> dialog_state" where
  "yield_star sub received =
     (case sumSubDialog_next sub received of
        (r, sub') \<Rightarrow> if done r then dialog_loop else (r, Dialog_in_sum sub'))"

fun dialog_next :: "string \<Rightarrow> dialog_state \<Rightarrow> string \<Rightarrow> IteratorResult \<times> dialog_state" where
  "dialog_next now Dialog_start _ =
     (yields (say ''Welcome to \"Do what I say BOT\"''), Dialog_at_welcome)"
| "dialog_next now Dialog_at_welcome _ = dialog_loop"
| "dialog_next now Dialog_at_listen message =
     (if includes (toLowerCase message) ''time'' then
        (yields (say (''It is '' @ now)), Dialog_at_time)
      else if includes (toLowerCase message) ''sum'' then
        yield_star Sum_start []
      else
        (yields (say ''I don't know what to say!''), Dialog_at_fallback))"
| "dialog_next now Dialog_at_time _ = dialog_loop"
| "dialog_next now (Dialog_in_sum sub) received = yield_star sub received"
| "dialog_next now Dialog_at_fallback _ = dialog_loop"

section \<open>The effect driver\<close>

subsection \<open>The transport\<close>

text \<open>
  \<^verbatim>\<open>sock.send\<close> is the method of the \<^verbatim>\<open>WebSocket\<close> of \<^verbatim>\<open>std@0.74.0/ws\<close> that
  \<^verbatim>\<open>handleWs\<close> imports: \<^verbatim>\<open>send(data): Promise<void>\<close>. A call either returns a promise
  that is fulfilled when the frame is written, or throws (the socket is closed), or returns
  a promise that is rejected later (the write fails). The transport is a parameter of the
  driver: the outcome of the call of \<^verbatim>\<open>send\<close> number \<open>k\<close>, counted from 0.
\<close>

datatype send_outcome = Sent | Throws | Rejects

type_synonym transport = "nat \<Rightarrow> send_outcome"

subsection \<open>\<^verbatim>\<open>handleWs\<close>\<close>

text \<open>
  Where the driver is: inside the loop; suspended at \<^verbatim>\<open>await incoming.take()\<close> on a
  promise, with the \<^verbatim>\<open>done\<close> flag it will test when it goes on; out of the loop, the
  function returned; or left by the exception of \<^verbatim>\<open>sock.send\<close>.
\<close>

datatype status = Running | Awaiting promise bool | Returned | Thrown

text \<open>
  The state of one connection: the generator object \<^verbatim>\<open>iter\<close>, the variable
  \<^verbatim>\<open>current\<close>, the channel \<^verbatim>\<open>incoming\<close> with its promises. Two histories are kept
  beside them: \<open>sends\<close>, the calls of \<^verbatim>\<open>sock.send\<close> with their arguments and outcomes, and
  \<open>produced\<close>, the effects \<^verbatim>\<open>iter.next\<close> has returned.
\<close>

record 'g driver =
  iter :: 'g
  current :: string
  incoming :: channel_use
  sends :: "(string option \<times> send_outcome) list"
  produced :: "effect list"
  status :: status

text \<open>
  \<^verbatim>\<open>
  while (true) {
    const { value: effect, done } = iter.next(current);
    if (!effect) { break; }
    switch (effect.type) {
      case "say":    { sock.send(effect.text); break; }
      case "listen": { current = await incoming.take(); break; }
    }
    if (done) { break; }
  }
  \<close>
  The loop from its head to the point where the driver returns, is left by an exception, or
  is suspended on a promise that is still pending. The result of \<^verbatim>\<open>sock.send\<close> is dropped,
  so the loop goes on after a call that has not thrown. \<^verbatim>\<open>await\<close> on a promise that
  \<^verbatim>\<open>take()\<close> has resolved already goes on with its value. The loop has no bound: a
  script that never listens keeps it turning, and then the model has no result.
\<close>

partial_function (option) handleWs_loop ::
  "('g \<Rightarrow> string \<Rightarrow> IteratorResult \<times> 'g) \<Rightarrow> transport \<Rightarrow> 'g driver \<Rightarrow> 'g driver option"
where
  "handleWs_loop next transport d =
     (case next (iter d) (current d) of
        (r, g) \<Rightarrow>
          (case value r of
             None \<Rightarrow> Some (d\<lparr>iter := g, status := Returned\<rparr>)
           | Some effect \<Rightarrow>
               let d1 = d\<lparr>iter := g, produced := produced d @ [effect]\<rparr>
               in if type effect = ''say'' then
                    (case transport (length (sends d1)) of
                       Throws \<Rightarrow>
                         Some (d1\<lparr>sends := sends d1 @ [(text effect, Throws)], status := Thrown\<rparr>)
                     | outcome \<Rightarrow>
                         let d2 = d1\<lparr>sends := sends d1 @ [(text effect, outcome)]\<rparr>
                         in if done r then Some (d2\<lparr>status := Returned\<rparr>)
                            else handleWs_loop next transport d2)
                  else if type effect = ''listen'' then
                    (let p = promises (incoming d1);
                         d2 = d1\<lparr>incoming := call Take (incoming d1)\<rparr>
                     in case map_of (settled (incoming d2)) p of
                          None \<Rightarrow> Some (d2\<lparr>status := Awaiting p (done r)\<rparr>)
                        | Some payload \<Rightarrow>
                            let d3 = d2\<lparr>current := payload\<rparr>
                            in if done r then Some (d3\<lparr>status := Returned\<rparr>)
                               else handleWs_loop next transport d3)
                  else if done r then Some (d1\<lparr>status := Returned\<rparr>)
                  else handleWs_loop next transport d1))"

declare handleWs_loop.simps [code]

text \<open>
  \<^verbatim>\<open>
  export async function handleWs(sock: WebSocket) {
    const incoming = new Channel();
    incoming.listen(sock);
    let current: string = "";
    const iter = dialog();
    while (true) { ... }
  }
  \<close>
  \<open>handleWs\<close> runs the function up to its first suspension, for a generator object
  \<open>iter0\<close>.
\<close>

definition handleWs ::
  "('g \<Rightarrow> string \<Rightarrow> IteratorResult \<times> 'g) \<Rightarrow> transport \<Rightarrow> 'g \<Rightarrow> 'g driver option"
where
  "handleWs next transport iter0 =
     handleWs_loop next transport
       \<lparr>iter = iter0, current = [], incoming = new_use, sends = [], produced = [],
        status = Running\<rparr>"

text \<open>
  The driver goes on when its promise is resolved: the assignment to \<^verbatim>\<open>current\<close>, the
  \<^verbatim>\<open>break\<close> of the \<^verbatim>\<open>switch\<close>, the test of \<^verbatim>\<open>done\<close>, and the loop again.
\<close>

definition resume ::
  "('g \<Rightarrow> string \<Rightarrow> IteratorResult \<times> 'g) \<Rightarrow> transport \<Rightarrow> string \<Rightarrow> bool \<Rightarrow> 'g driver
     \<Rightarrow> 'g driver option"
where
  "resume next transport payload dn d =
     (let d1 = d\<lparr>current := payload\<rparr>
      in if dn then Some (d1\<lparr>status := Returned\<rparr>)
         else handleWs_loop next transport (d1\<lparr>status := Running\<rparr>))"

text \<open>
  One event of the socket: the task started by \<^verbatim>\<open>incoming.listen(sock)\<close> handles it, and
  when this resolves the promise the driver awaits, the driver goes on, up to its next
  suspension, before the next event is handled.
\<close>

definition on_event ::
  "('g \<Rightarrow> string \<Rightarrow> IteratorResult \<times> 'g) \<Rightarrow> transport \<Rightarrow> WebSocketEvent \<Rightarrow> 'g driver
     \<Rightarrow> 'g driver option"
where
  "on_event next transport event d =
     (let d1 = d\<lparr>incoming := call (Listen event) (incoming d)\<rparr>
      in case status d of
           Awaiting p dn \<Rightarrow>
             (case map_of (settled (incoming d1)) p of
                None \<Rightarrow> Some d1
              | Some payload \<Rightarrow> resume next transport payload dn d1)
         | _ \<Rightarrow> Some d1)"

fun on_events ::
  "('g \<Rightarrow> string \<Rightarrow> IteratorResult \<times> 'g) \<Rightarrow> transport \<Rightarrow> 'g driver option
     \<Rightarrow> WebSocketEvent list \<Rightarrow> 'g driver option"
where
  "on_events next transport None events = None"
| "on_events next transport (Some d) [] = Some d"
| "on_events next transport (Some d) (event # events) =
     on_events next transport (on_event next transport event d) events"

text \<open>A connection: \<^verbatim>\<open>handleWs\<close>, and then the events of the socket, one by one.\<close>

definition connection ::
  "('g \<Rightarrow> string \<Rightarrow> IteratorResult \<times> 'g) \<Rightarrow> transport \<Rightarrow> 'g \<Rightarrow> WebSocketEvent list
     \<Rightarrow> 'g driver option"
where
  "connection next transport iter0 events =
     on_events next transport (handleWs next transport iter0) events"

subsection \<open>The driver on \<^verbatim>\<open>dialog()\<close>\<close>

text \<open>
  The generator object \<^verbatim>\<open>dialog()\<close> in its environment: the state of the generator and
  the number of calls of \<^verbatim>\<open>next\<close> made so far. A clock gives, for each call of \<^verbatim>\<open>next\<close>,
  the time \<^verbatim>\<open>format(new Date(), "HH:mm:ss")\<close> would read during it.
\<close>

type_synonym clock = "nat \<Rightarrow> string"

definition dialog :: "dialog_state \<times> nat" where
  "dialog = (Dialog_start, 0)"

fun dialog_iter_next :: "clock \<Rightarrow> dialog_state \<times> nat \<Rightarrow> string \<Rightarrow> IteratorResult \<times> (dialog_state \<times> nat)" where
  "dialog_iter_next clock (s, k) received =
     (case dialog_next (clock k) s received of (r, s') \<Rightarrow> (r, (s', Suc k)))"

text \<open>A transport that never fails, and one whose first call returns a promise that is rejected.\<close>

definition reliable :: transport where
  "reliable k = Sent"

definition first_send_rejected :: transport where
  "first_send_rejected k = (if k = 0 then Rejects else Sent)"

definition first_send_throws :: transport where
  "first_send_throws k = (if k = 0 then Throws else Sent)"

text \<open>Two clocks that stand still, at different times.\<close>

definition ten_o'clock :: clock where
  "ten_o'clock k = ''10:00:00''"

definition noon :: clock where
  "noon k = ''12:00:00''"

subsection \<open>What the driver does on \<^verbatim>\<open>dialog()\<close>, message by message\<close>

text \<open>
  The terms in which the runs of the driver on \<^verbatim>\<open>dialog()\<close> are described below. The
  script is listening when it is suspended at one of its three \<^verbatim>\<open>yield listen()\<close>.
\<close>

fun listening :: "dialog_state \<Rightarrow> bool" where
  "listening Dialog_at_listen = True"
| "listening (Dialog_in_sum (Sum_at_first_listen result)) = True"
| "listening (Dialog_in_sum (Sum_at_listen result)) = True"
| "listening _ = False"

text \<open>
  The text the listening script says when it receives a message, and the place where it
  listens next.
\<close>

definition sum_reply :: "number \<Rightarrow> string \<Rightarrow> string \<times> dialog_state" where
  "sum_reply result message =
     (if isNaN (Number message) then (''The result is: '' @ toString result, Dialog_at_listen)
      else (''Got it!'', Dialog_in_sum (Sum_at_listen (add result (Number message)))))"

fun reply :: "string \<Rightarrow> dialog_state \<Rightarrow> string \<Rightarrow> string \<times> dialog_state" where
  "reply now Dialog_at_listen message =
     (if includes (toLowerCase message) ''time'' then (''It is '' @ now, Dialog_at_listen)
      else if includes (toLowerCase message) ''sum'' then
        (''Okay, what numbers should we sum?'', Dialog_in_sum (Sum_at_first_listen (Whole 0)))
      else (''I don't know what to say!'', Dialog_at_listen))"
| "reply now (Dialog_in_sum (Sum_at_first_listen result)) message = sum_reply result message"
| "reply now (Dialog_in_sum (Sum_at_listen result)) message = sum_reply result message"
| "reply now s message = ([], s)"

fun replies :: "clock \<Rightarrow> dialog_state \<times> nat \<Rightarrow> string list \<Rightarrow> string list" where
  "replies clock (s, k) [] = []"
| "replies clock (s, k) (message # messages) =
     (case reply (clock k) s message of
        (t, s') \<Rightarrow> t # replies clock (s', Suc (Suc k)) messages)"

text \<open>The text messages among the events of a socket.\<close>

fun texts :: "WebSocketEvent list \<Rightarrow> string list" where
  "texts [] = []"
| "texts (Str message # events) = message # texts events"
| "texts (_ # events) = texts events"

text \<open>
  The driver waits when it is suspended on the only pending promise, the last one created,
  with nothing buffered, and the script is listening.
\<close>

definition waiting :: "(dialog_state \<times> nat) driver \<Rightarrow> bool" where
  "waiting d \<longleftrightarrow>
     listening (fst (iter d)) \<and>
     status d = Awaiting (promises (incoming d) - 1) False \<and>
     0 < promises (incoming d) \<and>
     takers (chan (incoming d)) = [promises (incoming d) - 1] \<and>
     buffer (chan (incoming d)) = [] \<and>
     list_all (\<lambda>(q, payload). q < promises (incoming d) - 1) (settled (incoming d))"

text \<open>The waiting driver after a text message has arrived and has been answered.\<close>

definition answer ::
  "clock \<Rightarrow> transport \<Rightarrow> string \<Rightarrow> (dialog_state \<times> nat) driver \<Rightarrow> (dialog_state \<times> nat) driver"
where
  "answer clock transport message d =
     (let k = snd (iter d);
          p = promises (incoming d) - 1;
          t = fst (reply (clock k) (fst (iter d)) message)
      in \<lparr>iter = (snd (reply (clock k) (fst (iter d)) message), Suc (Suc k)),
          current = message,
          incoming = \<lparr>chan = \<lparr>takers = [Suc p], buffer = []\<rparr>,
                      settled = settled (incoming d) @ [(p, message)],
                      promises = Suc (Suc p)\<rparr>,
          sends = sends d @ [(Some t, transport (length (sends d)))],
          produced = produced d @ [say t, listen],
          status = Awaiting (Suc p) False\<rparr>)"

fun answers ::
  "clock \<Rightarrow> transport \<Rightarrow> (dialog_state \<times> nat) driver \<Rightarrow> string list
     \<Rightarrow> (dialog_state \<times> nat) driver"
where
  "answers clock transport d [] = d"
| "answers clock transport d (message # messages) =
     answers clock transport (answer clock transport message d) messages"

text \<open>
  The driver as \<^verbatim>\<open>handleWs\<close> leaves it on \<^verbatim>\<open>dialog()\<close>: the welcome sent, the first
  \<^verbatim>\<open>take()\<close> pending.
\<close>

definition greeted :: "transport \<Rightarrow> (dialog_state \<times> nat) driver" where
  "greeted transport =
     \<lparr>iter = (Dialog_at_listen, 2), current = [],
      incoming = \<lparr>chan = \<lparr>takers = [0], buffer = []\<rparr>, settled = [], promises = 1\<rparr>,
      sends = [(Some ''Welcome to \"Do what I say BOT\"'', transport 0)],
      produced = [say ''Welcome to \"Do what I say BOT\"'', listen],
      status = Awaiting 0 False\<rparr>"

subsection \<open>Two small scripts\<close>

text \<open>
  A script to try the driver on: it listens, yields an effect of a type the driver does not
  know, says what it receives then, and returns a last effect.
  \<^verbatim>\<open>
  function* probe() {
    yield listen();
    const received = yield { type: "pause" };
    yield say(received);
    return say("bye");
  }
  \<close>
  A second one returns a \<^verbatim>\<open>listen\<close> effect at once:
  \<^verbatim>\<open>function* last_listen() { return listen(); }\<close>
\<close>

datatype probe_state = Probe_start | Probe_at_listen | Probe_at_pause | Probe_at_say | Probe_returned

fun probe_next :: "probe_state \<Rightarrow> string \<Rightarrow> IteratorResult \<times> probe_state" where
  "probe_next Probe_start _ = (yields listen, Probe_at_listen)"
| "probe_next Probe_at_listen _ = (yields \<lparr>type = ''pause'', text = None\<rparr>, Probe_at_pause)"
| "probe_next Probe_at_pause received = (yields (say received), Probe_at_say)"
| "probe_next Probe_at_say _ = (\<lparr>value = Some (say ''bye''), done = True\<rparr>, Probe_returned)"
| "probe_next Probe_returned _ = (returns, Probe_returned)"

fun last_listen_next :: "bool \<Rightarrow> string \<Rightarrow> IteratorResult \<times> bool" where
  "last_listen_next False _ = (\<lparr>value = Some listen, done = True\<rparr>, True)"
| "last_listen_next True _ = (returns, True)"

section \<open>Properties of the channel\<close>

subsection \<open>What the matching loop computes\<close>

lemma callTakers_eq:
  "callTakers c =
     (zip (takers c) (buffer c),
      c\<lparr>takers := drop (length (buffer c)) (takers c),
        buffer := drop (length (takers c)) (buffer c)\<rparr>)"
proof (induction c rule: callTakers.induct)
  case (1 c)
  show ?case
  proof (cases "takers c")
    case Nil
    then show ?thesis by (simp add: callTakers.simps [of c])
  next
    case ts: (Cons t ts)
    show ?thesis
    proof (cases "buffer c")
      case Nil
      with ts show ?thesis by (simp add: callTakers.simps [of c])
    next
      case (Cons b bs)
      with ts "1.IH" show ?thesis
        by (simp add: callTakers.simps [of c] Let_def)
    qed
  qed
qed

lemma callTakers_drained: "drained (snd (callTakers c))"
proof (cases "length (takers c) \<le> length (buffer c)")
  case True
  then show ?thesis by (simp add: callTakers_eq drained_def)
next
  case False
  then show ?thesis by (simp add: callTakers_eq drained_def)
qed

lemma chan_call:
  "chan (call x u) =
     snd (case x of Take \<Rightarrow> Channel_take (promises u) (chan u)
          | Put m \<Rightarrow> Channel_put m (chan u)
          | Listen e \<Rightarrow> listen_event e (chan u))"
  by (cases x) (simp_all split: prod.splits)

lemma call_drained: "drained (chan u) \<Longrightarrow> drained (chan (call x u))"
proof (cases x)
  case Take
  then show ?thesis
    by (simp add: chan_call Channel_take_def callTakers_drained del: call.simps)
next
  case (Put m)
  then show ?thesis
    by (simp add: chan_call Channel_put_def callTakers_drained del: call.simps)
next
  case (Listen e)
  assume "drained (chan u)"
  with Listen show ?thesis
    by (cases e) (simp_all add: chan_call Channel_put_def callTakers_drained del: call.simps)
qed

subsection \<open>Sequences of calls\<close>

lemma take_count_snoc:
  "take_count (xs @ [x]) = take_count xs + (case x of Take \<Rightarrow> 1 | _ \<Rightarrow> 0)"
  by (induction xs rule: take_count.induct) (auto split: channel_call.splits)

lemma put_values_snoc:
  "put_values (xs @ [x]) =
     put_values xs @ (case x of Put m \<Rightarrow> [m] | Listen (Str m) \<Rightarrow> [m] | _ \<Rightarrow> [])"
  by (induction xs rule: put_values.induct)
    (auto split: channel_call.splits WebSocketEvent.splits)

lemma calls_from_snoc: "calls_from u (xs @ [x]) = call x (calls_from u xs)"
  by (induction xs arbitrary: u) auto

lemma paired_take:
  assumes "paired xs u"
  shows "paired (xs @ [Take]) (call Take u)"
proof (cases "buffer (chan u)")
  case Nil
  with assms show ?thesis
    by (simp add: paired_def drained_def take_count_snoc put_values_snoc
        Channel_take_def callTakers_eq)
next
  case (Cons b bs)
  with assms have "takers (chan u) = []"
    by (auto simp: paired_def drained_def)
  with Cons assms show ?thesis
    by (simp add: paired_def drained_def take_count_snoc put_values_snoc
        Channel_take_def callTakers_eq)
qed

lemma paired_put:
  assumes "paired xs u"
  shows "paired (xs @ [Put m]) (call (Put m) u)"
proof (cases "takers (chan u)")
  case Nil
  with assms show ?thesis
    by (simp add: paired_def drained_def take_count_snoc put_values_snoc
        Channel_put_def callTakers_eq)
next
  case (Cons t ts)
  with assms have "buffer (chan u) = []"
    by (auto simp: paired_def drained_def)
  with Cons assms show ?thesis
    by (simp add: paired_def drained_def take_count_snoc put_values_snoc
        Channel_put_def callTakers_eq)
qed

lemma paired_listen:
  assumes "paired xs u"
  shows "paired (xs @ [Listen e]) (call (Listen e) u)"
proof (cases e)
  case (Str m)
  with paired_put [OF assms, of m] show ?thesis
    by (simp add: paired_def take_count_snoc put_values_snoc)
qed (use assms in \<open>simp_all add: paired_def take_count_snoc put_values_snoc\<close>)

lemma paired_calls: "paired xs (calls_from new_use xs)"
proof (induction xs rule: rev_induct)
  case Nil
  show ?case
    by (simp add: paired_def drained_def new_use_def new_Channel_def)
next
  case (snoc x xs)
  then show ?case
    by (cases x)
      (simp_all add: calls_from_snoc paired_take paired_put paired_listen del: call.simps)
qed

text \<open>
  With the channel drained, one of the two remainders is empty, and the settled promises
  are the promises and the values paired off position by position.
\<close>

lemma paired_zip:
  assumes "paired xs u"
  shows "settled u = zip [0..<take_count xs] (put_values xs)"
proof -
  have len: "length (map fst (settled u)) = length (map snd (settled u))"
    by simp
  from assms consider "takers (chan u) = []" | "buffer (chan u) = []"
    by (auto simp: paired_def drained_def)
  then show ?thesis
  proof cases
    case 1
    with assms have "zip [0..<take_count xs] (put_values xs)
        = zip (map fst (settled u)) (map snd (settled u) @ buffer (chan u))"
      by (simp add: paired_def)
    also have "\<dots> = zip (map fst (settled u)) (map snd (settled u))"
      using len by (simp add: zip_append2)
    finally show ?thesis by (simp add: zip_map_fst_snd)
  next
    case 2
    with assms have "zip [0..<take_count xs] (put_values xs)
        = zip (map fst (settled u) @ takers (chan u)) (map snd (settled u))"
      by (simp add: paired_def)
    also have "\<dots> = zip (map fst (settled u)) (map snd (settled u))"
      using len by (simp add: zip_append1)
    finally show ?thesis by (simp add: zip_map_fst_snd)
  qed
qed

lemma paired_distinct:
  assumes "paired xs u"
  shows "distinct (map fst (settled u) @ takers (chan u))"
  using assms by (simp only: paired_def distinct_upt)

text \<open>
  How far the pairing has gone: as many values are delivered as there are both takes and
  puts, the first ones of each.
\<close>

lemma paired_split:
  assumes "paired xs u"
  shows "map snd (settled u) = take (take_count xs) (put_values xs) \<and>
         buffer (chan u) = drop (take_count xs) (put_values xs) \<and>
         map fst (settled u) = take (length (put_values xs)) [0..<take_count xs] \<and>
         takers (chan u) = drop (length (put_values xs)) [0..<take_count xs]"
proof -
  from assms have f: "map fst (settled u) @ takers (chan u) = [0..<take_count xs]"
    and s: "map snd (settled u) @ buffer (chan u) = put_values xs"
    by (simp_all add: paired_def)
  from f have lf: "length (settled u) + length (takers (chan u)) = take_count xs"
    by (metis length_append length_map length_upt minus_nat.diff_0)
  from s have ls: "length (settled u) + length (buffer (chan u)) = length (put_values xs)"
    by (metis length_append length_map)
  from assms consider "takers (chan u) = []" | "buffer (chan u) = []"
    by (auto simp: paired_def drained_def)
  then show ?thesis
  proof cases
    case 1
    with lf have n: "length (settled u) = take_count xs" by simp
    with ls have le: "take_count xs \<le> length (put_values xs)" by simp
    from s n have "map snd (settled u) = take (take_count xs) (put_values xs)"
      and "buffer (chan u) = drop (take_count xs) (put_values xs)"
      by (simp_all add: append_eq_conv_conj)
    moreover from f 1 le have "map fst (settled u) = take (length (put_values xs)) [0..<take_count xs]"
      and "takers (chan u) = drop (length (put_values xs)) [0..<take_count xs]"
      by simp_all
    ultimately show ?thesis by simp
  next
    case 2
    with ls have n: "length (settled u) = length (put_values xs)" by simp
    with lf have le: "length (put_values xs) \<le> take_count xs" by simp
    from f n have "map fst (settled u) = take (length (put_values xs)) [0..<take_count xs]"
      and "takers (chan u) = drop (length (put_values xs)) [0..<take_count xs]"
      by (simp_all add: append_eq_conv_conj)
    moreover from s 2 le have "map snd (settled u) = take (take_count xs) (put_values xs)"
      and "buffer (chan u) = drop (take_count xs) (put_values xs)"
      by simp_all
    ultimately show ?thesis by simp
  qed
qed

section \<open>Properties of the script and of the driver\<close>

subsection \<open>The listening script answers with one text and listens again\<close>

lemma reply_dialog_next:
  assumes "listening s"
  shows "\<exists>s1. dialog_next now s message = (yields (say (fst (reply now s message))), s1) \<and>
              dialog_next now' s1 received = (yields listen, snd (reply now s message))"
  using assms
proof (induction s rule: listening.induct)
  case 1
  show ?case
    by (simp add: yield_star_def yields_def returns_def dialog_loop_def)
next
  case (2 result)
  show ?case
    by (simp add: yield_star_def sumSubDialog_loop_def sum_reply_def yields_def returns_def dialog_loop_def)
next
  case (3 result)
  show ?case
    by (simp add: yield_star_def sumSubDialog_loop_def sum_reply_def yields_def returns_def dialog_loop_def)
qed simp_all

lemma reply_listening: "listening s \<Longrightarrow> listening (snd (reply now s message))"
  by (induction s rule: listening.induct) (simp_all add: sum_reply_def)

lemma reply_state_clock: "snd (reply now s message) = snd (reply now' s message)"
  by (induction s rule: listening.induct) (simp_all add: sum_reply_def)

subsection \<open>The loop of the driver, one effect at a time\<close>

lemma map_of_fresh:
  "list_all (\<lambda>(q, payload). q < (p::nat)) xs \<Longrightarrow> p \<le> p' \<Longrightarrow> map_of xs p' = None"
  by (induction xs) auto

lemma loop_say:
  assumes "next (iter d) (current d) = (yields (say t), g)"
    and "transport (length (sends d)) \<noteq> Throws"
  shows "handleWs_loop next transport d =
         handleWs_loop next transport
           (d\<lparr>iter := g, produced := produced d @ [say t],
              sends := sends d @ [(Some t, transport (length (sends d)))]\<rparr>)"
  using assms
  by (subst handleWs_loop.simps)
    (simp add: yields_def say_def Let_def split: send_outcome.splits)

lemma loop_listen_pending:
  assumes "next (iter d) (current d) = (yields listen, g)"
    and "takers (chan (incoming d)) = []"
    and "buffer (chan (incoming d)) = []"
    and "map_of (settled (incoming d)) (promises (incoming d)) = None"
  shows "handleWs_loop next transport d =
         Some (d\<lparr>iter := g, produced := produced d @ [listen],
                 incoming := \<lparr>chan = \<lparr>takers = [promises (incoming d)], buffer = []\<rparr>,
                              settled = settled (incoming d),
                              promises = Suc (promises (incoming d))\<rparr>,
                 status := Awaiting (promises (incoming d)) False\<rparr>)"
  using assms
  by (subst handleWs_loop.simps)
    (simp add: yields_def listen_def Let_def Channel_take_def callTakers_eq)

subsection \<open>The waiting driver handles an event\<close>

lemma on_event_waiting:
  assumes w: "waiting d" and tr: "transport (length (sends d)) \<noteq> Throws"
  shows "on_event (dialog_iter_next clock) transport (Str message) d
         = Some (answer clock transport message d)"
proof -
  obtain s k where it: "iter d = (s, k)"
    by (cases "iter d")
  define p where "p = promises (incoming d) - 1"
  from w it have lis: "listening s"
    and st: "status d = Awaiting p False"
    and pr: "promises (incoming d) = Suc p"
    and tk: "takers (chan (incoming d)) = [p]"
    and bf: "buffer (chan (incoming d)) = []"
    and fresh: "list_all (\<lambda>(q, payload). q < p) (settled (incoming d))"
    by (simp_all add: waiting_def p_def)
  define t where "t = fst (reply (clock k) s message)"
  define s' where "s' = snd (reply (clock k) s message)"
  from reply_dialog_next [OF lis, of "clock k" message "clock (Suc k)" message]
  obtain s1 where n1: "dialog_next (clock k) s message = (yields (say t), s1)"
    and n2: "dialog_next (clock (Suc k)) s1 message = (yields listen, s')"
    by (auto simp: t_def s'_def)
  define u where "u = \<lparr>chan = \<lparr>takers = [], buffer = []\<rparr>,
      settled = settled (incoming d) @ [(p, message)], promises = Suc p\<rparr>"
  have put: "call (Listen (Str message)) (incoming d) = u"
    using tk bf pr by (simp add: u_def Channel_put_def callTakers_eq)
  have found: "map_of (settled u) p = Some message"
    using map_of_fresh [OF fresh, of p] by (simp add: u_def map_add_def)
  define d1 where "d1 = d\<lparr>incoming := u, current := message, status := Running\<rparr>"
  have ev: "on_event (dialog_iter_next clock) transport (Str message) d
      = handleWs_loop (dialog_iter_next clock) transport d1"
    using st found put by (simp add: on_event_def resume_def d1_def Let_def)
  define d2 where "d2 = d1\<lparr>iter := (s1, Suc k), produced := produced d1 @ [say t],
      sends := sends d1 @ [(Some t, transport (length (sends d1)))]\<rparr>"
  have l1: "handleWs_loop (dialog_iter_next clock) transport d1
      = handleWs_loop (dialog_iter_next clock) transport d2"
    unfolding d2_def
    by (rule loop_say) (use it n1 tr in \<open>simp_all add: d1_def\<close>)
  have fresh2: "map_of (settled (incoming d2)) (promises (incoming d2)) = None"
  proof -
    have "list_all (\<lambda>(q, payload). q < Suc p) (settled u)"
      using fresh by (auto simp: u_def list_all_iff)
    from map_of_fresh [OF this, of "Suc p"] show ?thesis
      by (simp add: d2_def d1_def u_def)
  qed
  have l2: "handleWs_loop (dialog_iter_next clock) transport d2
      = Some (d2\<lparr>iter := (s', Suc (Suc k)), produced := produced d2 @ [listen],
                 incoming := \<lparr>chan = \<lparr>takers = [promises (incoming d2)], buffer = []\<rparr>,
                              settled = settled (incoming d2),
                              promises = Suc (promises (incoming d2))\<rparr>,
                 status := Awaiting (promises (incoming d2)) False\<rparr>)"
    by (rule loop_listen_pending)
      (use n2 fresh2 in \<open>simp_all add: d2_def d1_def u_def\<close>)
  show ?thesis
    unfolding ev l1 l2
    using it pr
    by (simp add: answer_def d2_def d1_def u_def t_def s'_def p_def Let_def)
qed

lemma answer_waiting:
  assumes "waiting d"
  shows "waiting (answer clock transport message d)"
  using assms
  by (auto simp: waiting_def answer_def Let_def reply_listening list_all_iff)

lemma on_event_other:
  assumes "waiting d" and "texts [event] = []"
  shows "on_event next transport event d = Some d"
proof -
  have "call (Listen event) (incoming d) = incoming d"
    using assms(2) by (cases event) simp_all
  moreover have "map_of (settled (incoming d)) (promises (incoming d) - 1) = None"
    using assms(1) map_of_fresh [of "promises (incoming d) - 1" "settled (incoming d)"]
    by (simp add: waiting_def)
  ultimately show ?thesis
    using assms(1) by (simp add: on_event_def waiting_def)
qed

lemma on_events_waiting:
  assumes "waiting d" and "\<And>k. transport k \<noteq> Throws"
  shows "on_events (dialog_iter_next clock) transport (Some d) events
         = Some (answers clock transport d (texts events))"
  using assms(1)
proof (induction events arbitrary: d)
  case Nil
  show ?case by simp
next
  case (Cons event events)
  show ?case
  proof (cases "texts [event] = []")
    case True
    then have "texts (event # events) = texts events"
      by (cases event) simp_all
    with Cons True show ?thesis
      by (simp add: on_event_other)
  next
    case False
    then obtain message where "event = Str message"
      by (cases event) simp_all
    with Cons assms(2) show ?thesis
      by (simp add: on_event_waiting answer_waiting)
  qed
qed

lemma handleWs_dialog:
  assumes "transport 0 \<noteq> Throws"
  shows "handleWs (dialog_iter_next clock) transport dialog =
         Some \<lparr>iter = (Dialog_at_listen, 2), current = [],
               incoming = \<lparr>chan = \<lparr>takers = [0], buffer = []\<rparr>, settled = [], promises = 1\<rparr>,
               sends = [(Some ''Welcome to \"Do what I say BOT\"'', transport 0)],
               produced = [say ''Welcome to \"Do what I say BOT\"'', listen],
               status = Awaiting 0 False\<rparr>"
proof -
  define d0 :: "(dialog_state \<times> nat) driver" where "d0 = \<lparr>iter = dialog, current = [], incoming = new_use, sends = [],
      produced = [], status = Running\<rparr>"
  define d1 where "d1 = d0\<lparr>iter := (Dialog_at_welcome, 1),
      produced := produced d0 @ [say ''Welcome to \"Do what I say BOT\"''],
      sends := sends d0 @ [(Some ''Welcome to \"Do what I say BOT\"'', transport (length (sends d0)))]\<rparr>"
  have l1: "handleWs_loop (dialog_iter_next clock) transport d0
      = handleWs_loop (dialog_iter_next clock) transport d1"
    unfolding d1_def
    by (rule loop_say) (use assms in \<open>simp_all add: d0_def dialog_def\<close>)
  have l2: "handleWs_loop (dialog_iter_next clock) transport d1
      = Some (d1\<lparr>iter := (Dialog_at_listen, 2), produced := produced d1 @ [listen],
                 incoming := \<lparr>chan = \<lparr>takers = [promises (incoming d1)], buffer = []\<rparr>,
                              settled = settled (incoming d1),
                              promises = Suc (promises (incoming d1))\<rparr>,
                 status := Awaiting (promises (incoming d1)) False\<rparr>)"
    by (rule loop_listen_pending)
      (simp_all add: d1_def d0_def new_use_def new_Channel_def dialog_loop_def numeral_2_eq_2)
  show ?thesis
    unfolding handleWs_def d0_def [symmetric] l1 l2
    by (simp add: d1_def d0_def new_use_def)
qed

subsection \<open>A connection on \<^verbatim>\<open>dialog()\<close> is its list of answers\<close>

lemma greeted_waiting: "waiting (greeted transport)"
  by (simp add: waiting_def greeted_def)

lemma connection_dialog:
  assumes "\<And>k. transport k \<noteq> Throws"
  shows "connection (dialog_iter_next clock) transport dialog events
         = Some (answers clock transport (greeted transport) (texts events))"
proof -
  have "handleWs (dialog_iter_next clock) transport dialog = Some (greeted transport)"
    using handleWs_dialog [of transport clock] assms by (simp add: greeted_def)
  then show ?thesis
    using on_events_waiting [OF greeted_waiting assms]
    by (simp add: connection_def)
qed

lemma reliable_never_throws: "reliable k \<noteq> Throws"
  by (simp add: reliable_def)

lemma texts_map_Str: "texts (map Str messages) = messages"
  by (induction messages) simp_all

lemma texts_append: "texts (xs @ ys) = texts xs @ texts ys"
  by (induction xs rule: texts.induct) simp_all

lemma iter_answer:
  "iter (answer clock transport message d)
   = (snd (reply (clock (snd (iter d))) (fst (iter d)) message), Suc (Suc (snd (iter d))))"
  by (simp add: answer_def Let_def)

lemma produced_answer:
  "produced (answer clock transport message d)
   = produced d @ [say (fst (reply (clock (snd (iter d))) (fst (iter d)) message)), listen]"
  by (simp add: answer_def Let_def)

lemma produced_answers:
  "produced (answers clock transport d messages)
   = produced d @ concat (map (\<lambda>t. [say t, listen]) (replies clock (iter d) messages))"
proof (induction messages arbitrary: d)
  case Nil
  show ?case by (cases "iter d") simp
next
  case (Cons message messages)
  show ?case
    by (cases "iter d") (simp add: Cons iter_answer produced_answer split: prod.splits)
qed

subsection \<open>The clock\<close>

lemma reply_without_time:
  "\<not> includes (toLowerCase message) ''time'' \<Longrightarrow> reply now s message = reply now' s message"
  by (induction s rule: listening.induct) (simp_all add: sum_reply_def)

lemma length_replies: "length (replies clock it messages) = length messages"
proof (induction messages arbitrary: it)
  case Nil
  show ?case by (cases it) simp
next
  case (Cons message messages)
  then show ?case by (cases it) (simp split: prod.splits)
qed

lemma types_of_replies:
  "map type (concat (map (\<lambda>t. [say t, listen]) ts))
   = concat (replicate (length ts) [''say'', ''listen''])"
  by (induction ts) (simp_all add: say_def listen_def)

lemma replies_without_time:
  "list_all (\<lambda>message. \<not> includes (toLowerCase message) ''time'') messages
   \<Longrightarrow> replies clock1 (s, k) messages = replies clock2 (s, k) messages"
proof (induction messages arbitrary: s k)
  case Nil
  show ?case by simp
next
  case (Cons message messages)
  then show ?case
    using reply_without_time [of message "clock1 k" s "clock2 k"]
    by (simp split: prod.splits)
qed

lemma reply_text_time:
  "fst (reply now s message) = fst (reply now' s message) \<or>
   (includes (toLowerCase message) ''time'' \<and>
    fst (reply now s message) = ''It is '' @ now \<and>
    fst (reply now' s message) = ''It is '' @ now')"
  by (induction s rule: listening.induct) (simp_all add: sum_reply_def)

lemma replies_Cons:
  "replies clock (s, k) (message # messages)
   = fst (reply (clock k) s message)
     # replies clock (snd (reply (clock k) s message), Suc (Suc k)) messages"
  by (simp split: prod.splits)

lemma replies_nth:
  assumes "i < length messages"
  shows "replies clock1 (s, k) messages ! i = replies clock2 (s, k) messages ! i \<or>
         (includes (toLowerCase (messages ! i)) ''time'' \<and>
          replies clock1 (s, k) messages ! i = ''It is '' @ clock1 (k + 2 * i) \<and>
          replies clock2 (s, k) messages ! i = ''It is '' @ clock2 (k + 2 * i))"
  using assms
proof (induction messages arbitrary: s k i)
  case Nil
  then show ?case by simp
next
  case (Cons message messages)
  have same: "snd (reply (clock1 k) s message) = snd (reply (clock2 k) s message)"
    by (rule reply_state_clock)
  show ?case
  proof (cases i)
    case 0
    with reply_text_time [of "clock1 k" s message "clock2 k"] show ?thesis
      by (simp add: replies_Cons del: replies.simps)
  next
    case (Suc j)
    with Cons.prems have "j < length messages" by simp
    from Cons.IH [OF this, of "snd (reply (clock1 k) s message)" "Suc (Suc k)"] same Suc
    show ?thesis
      by (simp add: replies_Cons del: replies.simps)
  qed
qed

subsection \<open>Rounding leaves the integers up to \<open>2^53\<close> as they are\<close>

lemma bits_bounds: "0 < p \<Longrightarrow> 2 ^ (bits p - 1) \<le> p \<and> p < 2 ^ bits p"
proof (induction p rule: bits.induct)
  case (1 n)
  show ?case
  proof (cases "n div 2 = 0")
    case True
    with "1.prems" have "n = 1" by presburger
    then show ?thesis
      by (simp add: bits.simps [of 1] bits.simps [of 0])
  next
    case False
    with "1.prems" have pos: "0 < n div 2" by presburger
    with "1.IH" "1.prems" have ih: "2 ^ (bits (n div 2) - 1) \<le> n div 2" "n div 2 < 2 ^ bits (n div 2)"
      by simp_all
    from pos have b: "0 < bits (n div 2)"
      by (simp add: bits.simps [of "n div 2"])
    have eq: "bits n = Suc (bits (n div 2))"
      using "1.prems" by (simp add: bits.simps [of n])
    from b have "(2::int) ^ (bits n - 1) = 2 * 2 ^ (bits (n div 2) - 1)"
      by (cases "bits (n div 2)") (simp_all add: eq)
    with ih show ?thesis
      by (simp add: eq) presburger
  qed
qed

lemma dyadic_power: "dyadic (m * 2 ^ k) k = Whole m"
  by (induction k) simp_all

lemma bits_one: "bits 1 = 1"
  by (simp add: bits.simps [of 1] bits.simps [of 0])

lemma floor_log2_int:
  assumes "0 < p"
  shows "floor_log2 p 1 = int (bits p) - 1"
proof -
  from assms have b: "0 < bits p"
    by (simp add: bits.simps [of p])
  then have "nat (int (bits p) - 1) = bits p - 1"
    by simp
  with bits_bounds [OF assms] b show ?thesis
    by (simp add: floor_log2_def bits_one Let_def)
qed

lemma round_half_even_one: "round_half_even n 1 = n"
  by (simp add: round_half_even_def)

lemma double_of_positive:
  assumes "0 < p" and "p \<le> 9007199254740992"
  shows "double_of negative p 1 = Whole (signed negative p)"
proof -
  define e where "e = int (bits p) - 1"
  have fl: "floor_log2 p 1 = e"
    using assms(1) by (simp add: floor_log2_int e_def)
  from assms(1) have bpos: "0 < bits p"
    by (simp add: bits.simps [of p])
  then have ne: "nat e = bits p - 1" and e0: "0 \<le> e"
    by (simp_all add: e_def)
  from bits_bounds [OF assms(1)] have lo: "2 ^ nat e \<le> p" and hi: "p < 2 ^ Suc (nat e)"
    using bpos by (simp_all add: ne)
  have e53: "e \<le> 53"
  proof (rule ccontr)
    assume "\<not> e \<le> 53"
    then have "54 \<le> nat e" by simp
    then have "(2::int) ^ 54 \<le> 2 ^ nat e"
      by (rule power_increasing) simp
    with lo assms(2) show False by simp
  qed
  consider "e < 52" | "e = 52" | "e = 53"
    using e53 by linarith
  then show ?thesis
  proof cases
    case 1
    then have u: "max (e - 52) (- 1074) = e - 52" and neg: "\<not> 0 \<le> e - 52"
      using e0 by simp_all
    have "dyadic (signed negative (p * 2 ^ nat (52 - e))) (nat (52 - e)) = Whole (signed negative p)"
      using dyadic_power [of p "nat (52 - e)"] dyadic_power [of "- p" "nat (52 - e)"]
      by (simp add: signed_def)
    with assms(1) 1 e0 show ?thesis
      by (simp add: double_of_def fl Let_def u round_half_even_one del: dyadic.simps)
  next
    case 2
    with assms hi show ?thesis
      by (simp add: double_of_def fl Let_def round_half_even_one)
  next
    case 3
    with lo assms(2) have p: "p = 9007199254740992" by simp
    with fl 3 have "floor_log2 9007199254740992 1 = 53" by simp
    then show ?thesis
      by (simp add: p double_of_def Let_def round_half_even_def)
  qed
qed

lemma double_of_safe: "safe n \<Longrightarrow> double_of (n < 0) \<bar>n\<bar> 1 = Whole n"
proof (cases "n = 0")
  case True
  then show ?thesis by (simp add: double_of_def)
next
  case False
  assume "safe n"
  with False double_of_positive [of "\<bar>n\<bar>" "n < 0"] show ?thesis
    by (simp add: safe_def signed_def)
qed

lemma add_Whole: "safe (a + b) \<Longrightarrow> add (Whole a) (Whole b) = Whole (a + b)"
  by (simp add: add_def double_of_safe)

subsection \<open>The sum sub-dialogue adds the numbers it is given\<close>

lemma sum_list_abs: "0 \<le> sum_list (map abs (ns :: int list))"
  by (induction ns) simp_all

lemma foldl_add_Whole:
  "\<bar>n\<bar> + sum_list (map abs ns) \<le> 9007199254740992
   \<Longrightarrow> foldl add (Whole n) (map Whole ns) = Whole (n + sum_list ns)"
proof (induction ns arbitrary: n)
  case Nil
  show ?case by simp
next
  case (Cons m ms)
  from Cons.prems sum_list_abs [of ms] have s: "safe (n + m)"
    and bound: "\<bar>n + m\<bar> + sum_list (map abs ms) \<le> 9007199254740992"
    by (simp_all add: safe_def)
  from Cons.IH [OF bound] s show ?case
    by (simp add: add_Whole add.assoc)
qed

lemma sum_replies:
  assumes "list_all (\<lambda>message. \<not> isNaN (Number message)) messages"
    and "isNaN (Number stop)"
  shows "replies clock (Dialog_in_sum (Sum_at_listen result), k) (messages @ [stop])
         = replicate (length messages) ''Got it!''
           @ [''The result is: '' @ toString (foldl add result (map Number messages))]"
  using assms(1)
proof (induction messages arbitrary: result k)
  case Nil
  with assms(2) show ?case
    by (simp add: sum_reply_def)
next
  case (Cons message messages)
  then show ?case
    by (simp add: sum_reply_def)
qed

lemma sum_replies_first:
  assumes "list_all (\<lambda>message. \<not> isNaN (Number message)) messages"
    and "isNaN (Number stop)"
  shows "replies clock (Dialog_in_sum (Sum_at_first_listen result), k) (messages @ [stop])
         = replicate (length messages) ''Got it!''
           @ [''The result is: '' @ toString (foldl add result (map Number messages))]"
proof (cases messages)
  case Nil
  with assms show ?thesis
    by (simp add: sum_reply_def)
next
  case (Cons message rest)
  with assms(1) have "list_all (\<lambda>message. \<not> isNaN (Number message)) rest"
    and "\<not> isNaN (Number message)"
    by simp_all
  with sum_replies [OF _ assms(2), of rest clock "add result (Number message)" "Suc (Suc k)"]
  show ?thesis
    by (simp add: Cons sum_reply_def)
qed

lemma sum_conversation:
  assumes "\<not> includes (toLowerCase trigger) ''time''"
    and "includes (toLowerCase trigger) ''sum''"
    and "list_all (\<lambda>message. \<not> isNaN (Number message)) messages"
    and "isNaN (Number stop)"
  shows "map_option produced
           (connection (dialog_iter_next clock) reliable dialog
              (Str trigger # map Str messages @ [Str stop]))
         = Some ([say ''Welcome to \"Do what I say BOT\"'', listen,
                  say ''Okay, what numbers should we sum?'', listen]
                 @ concat (replicate (length messages) [say ''Got it!'', listen])
                 @ [say (''The result is: ''
                         @ toString (foldl add (Whole 0) (map Number messages))), listen])"
proof -
  let ?messages = "trigger # messages @ [stop]"
  have rep: "replies clock (Dialog_at_listen, 2) ?messages
      = ''Okay, what numbers should we sum?'' # replicate (length messages) ''Got it!''
        @ [''The result is: '' @ toString (foldl add (Whole 0) (map Number messages))]"
    using assms(1,2) sum_replies_first [OF assms(3,4)] by simp
  have cc: "concat (map (\<lambda>t. [say t, listen]) (replicate n t))
      = concat (replicate n [say t, listen])" for n t
    by (induction n) simp_all
  have texts: "texts (Str trigger # map Str messages @ [Str stop]) = ?messages"
    by (simp add: texts_append texts_map_Str)
  have conn: "connection (dialog_iter_next clock) reliable dialog
        (Str trigger # map Str messages @ [Str stop])
      = Some (answers clock reliable (greeted reliable) ?messages)"
    by (simp only: connection_dialog [OF reliable_never_throws] texts)
  have pr: "produced (answers clock reliable (greeted reliable) ?messages)
      = [say ''Welcome to \"Do what I say BOT\"'', listen]
        @ concat (map (\<lambda>t. [say t, listen]) (replies clock (Dialog_at_listen, 2) ?messages))"
    using produced_answers [of clock reliable "greeted reliable" ?messages]
    by (simp add: greeted_def del: answers.simps replies.simps)
  show ?thesis
    unfolding conn option.map pr rep
    by (simp add: cc)
qed

lemma whole_numbers:
  assumes "map Number messages = map Whole ns"
    and "sum_list (map abs ns) \<le> 9007199254740992"
  shows "list_all (\<lambda>message. \<not> isNaN (Number message)) messages"
    and "foldl add (Whole 0) (map Number messages) = Whole (sum_list ns)"
proof -
  have "list_all (\<lambda>x. x \<noteq> NaN) (map Number messages)"
    unfolding assms(1) by (simp add: list_all_iff)
  then show "list_all (\<lambda>message. \<not> isNaN (Number message)) messages"
    by (simp add: list_all_iff isNaN_def)
  from foldl_add_Whole [of 0 ns] assms(2)
  show "foldl add (Whole 0) (map Number messages) = Whole (sum_list ns)"
    by (simp add: assms(1))
qed

subsection \<open>A driver that has left its loop\<close>

lemma on_event_not_awaiting:
  assumes "status d = Thrown \<or> status d = Returned"
  shows "on_event next transport event d = Some (d\<lparr>incoming := call (Listen event) (incoming d)\<rparr>)"
  using assms by (auto simp: on_event_def)

lemma on_events_not_awaiting:
  assumes "status d = Thrown \<or> status d = Returned"
  shows "on_events next transport (Some d) events
         = Some (d\<lparr>incoming := calls_from (incoming d) (map Listen events)\<rparr>)"
  using assms
proof (induction events arbitrary: d)
  case Nil
  show ?case by simp
next
  case (Cons event events)
  have "status (d\<lparr>incoming := call (Listen event) (incoming d)\<rparr>) = Thrown \<or>
      status (d\<lparr>incoming := call (Listen event) (incoming d)\<rparr>) = Returned"
    using Cons.prems by simp
  from Cons.IH [OF this] Cons.prems show ?case
    by (simp add: on_event_not_awaiting del: call.simps)
qed

section \<open>The channel's guarantees\<close>

text \<open>
  C1 (FIFO). After any sequence of \<^verbatim>\<open>take\<close>, \<^verbatim>\<open>put\<close> and \<^verbatim>\<open>listen\<close> calls on a new
  channel, the promises resolved so far are, in the order in which they were resolved, the
  first, second, ... promise handed out by \<^verbatim>\<open>take()\<close>, and the K-th of them was resolved
  with the K-th value ever put: the log of resolutions is the list of \<^verbatim>\<open>take()\<close> calls
  zipped with the list of values put, whatever the interleaving.
\<close>

theorem channel_fifo:
  "settled (calls_from new_use xs) = zip [0..<take_count xs] (put_values xs)"
proof -
  have "paired xs (calls_from new_use xs)"
    by (rule paired_calls)
  then show ?thesis
    by (rule paired_zip)
qed

text \<open>
  C2 (no loss, no duplication). After any sequence of calls on a new channel, the values
  delivered followed by the values still buffered are exactly the values put, each
  occurrence once and in the order of the puts; the promises resolved followed by the
  promises still pending are exactly the promises created, so that no promise is resolved
  twice and none is both resolved and pending. Nothing waits that could be delivered: the
  number of deliveries is the smaller of the number of takes and the number of puts, the
  values delivered are the first values put, one to each of the first takes, and what is
  buffered, or who is pending, is the rest.
\<close>

theorem channel_no_loss_no_duplication:
  "map snd (settled (calls_from new_use xs)) @ buffer (chan (calls_from new_use xs))
     = put_values xs \<and>
   map fst (settled (calls_from new_use xs)) @ takers (chan (calls_from new_use xs))
     = [0..<take_count xs] \<and>
   distinct (map fst (settled (calls_from new_use xs)) @ takers (chan (calls_from new_use xs))) \<and>
   length (settled (calls_from new_use xs)) + length (buffer (chan (calls_from new_use xs)))
     = length (put_values xs) \<and>
   length (settled (calls_from new_use xs)) = min (take_count xs) (length (put_values xs)) \<and>
   map snd (settled (calls_from new_use xs)) = take (take_count xs) (put_values xs) \<and>
   buffer (chan (calls_from new_use xs)) = drop (take_count xs) (put_values xs) \<and>
   map fst (settled (calls_from new_use xs)) = [0..<min (take_count xs) (length (put_values xs))] \<and>
   takers (chan (calls_from new_use xs))
     = [min (take_count xs) (length (put_values xs))..<take_count xs]"
proof -
  let ?u = "calls_from new_use xs"
  have p: "paired xs ?u"
    by (rule paired_calls)
  have "length (map snd (settled ?u) @ buffer (chan ?u)) = length (put_values xs)"
    using p by (simp only: paired_def)
  then have total: "length (settled ?u) + length (buffer (chan ?u)) = length (put_values xs)"
    by simp
  note sp = paired_split [OF p]
  from sp have delivered: "length (settled ?u) = min (take_count xs) (length (put_values xs))"
    by (metis length_map length_take min.commute)
  from sp have resolved: "map fst (settled ?u) = [0..<min (take_count xs) (length (put_values xs))]"
    by (cases "length (put_values xs) \<le> take_count xs") (simp_all add: take_upt min_def)
  from sp have pending: "takers (chan ?u) = [min (take_count xs) (length (put_values xs))..<take_count xs]"
    by (cases "length (put_values xs) \<le> take_count xs") (simp_all add: min_def)
  from p paired_distinct [OF p] total delivered resolved pending sp show ?thesis
    by (simp only: paired_def simp_thms)
qed

text \<open>
  C3 (drain invariant). When \<^verbatim>\<open>take\<close>, \<^verbatim>\<open>put\<close> or a \<^verbatim>\<open>put\<close> made by \<^verbatim>\<open>listen\<close> returns,
  the takers and the buffer are not both non-empty, whatever the channel was before; a new
  channel is drained, every call keeps a drained channel drained, and so the channel is
  drained after every sequence of calls on a new channel.
\<close>

theorem channel_drain_invariant:
  "drained (snd (Channel_take p c)) \<and>
   drained (snd (Channel_put m c)) \<and>
   drained (snd (listen_event (Str m) c)) \<and>
   drained new_Channel \<and>
   (drained (chan u) \<longrightarrow> drained (chan (call x u))) \<and>
   drained (chan (calls_from new_use xs))"
proof -
  have "drained (chan (calls_from new_use xs))"
    using paired_calls [of xs] by (simp only: paired_def)
  moreover have "drained new_Channel"
    by (simp add: drained_def new_Channel_def)
  ultimately show ?thesis
    by (simp add: Channel_take_def Channel_put_def callTakers_drained call_drained)
qed

theorem channel_drain_invariant_witness:
  "drained (chan new_use) \<and>
   drained (chan (call (Put ''a'') new_use)) \<and>
   \<not> (takers (chan (call (Put ''a'') new_use)) \<noteq> [] \<and>
      buffer (chan (call (Put ''a'') new_use)) \<noteq> [])"
  using channel_drain_invariant [of 0 new_Channel "''a''" new_use "Put ''a''" "[]"]
  by (simp add: drained_def new_use_def new_Channel_def Channel_put_def callTakers_eq)

section \<open>The script's guarantees\<close>

text \<open>
  C4 (script determinism), as the code has it. The reply to a message that contains "time"
  reads the clock, so two runs on the same messages need not produce the same texts. On the
  same sequence of events two runs of the driver on \<^verbatim>\<open>dialog()\<close> both reach their next
  suspension, and both produce the welcome, a listen, and then one \<^verbatim>\<open>say\<close> and one
  \<^verbatim>\<open>listen\<close> for each text message. The two says that answer a message have the same
  text, unless the message contains "time" and both says tell the time, each "It is "
  followed by what the clock of its run reads at that advance of the script (the advance
  \<open>2 + 2 * i\<close> for the message number \<open>i\<close>, counted from 0). When no message contains "time"
  the two sequences are equal.
\<close>

theorem script_determinism_but_clock:
  "\<exists>d1 d2 ts1 ts2.
     connection (dialog_iter_next clock1) reliable dialog events = Some d1 \<and>
     connection (dialog_iter_next clock2) reliable dialog events = Some d2 \<and>
     produced d1 = [say ''Welcome to \"Do what I say BOT\"'', listen]
                   @ concat (map (\<lambda>t. [say t, listen]) ts1) \<and>
     produced d2 = [say ''Welcome to \"Do what I say BOT\"'', listen]
                   @ concat (map (\<lambda>t. [say t, listen]) ts2) \<and>
     length ts1 = length (texts events) \<and>
     length ts2 = length (texts events) \<and>
     (\<forall>i < length (texts events).
        ts1 ! i = ts2 ! i \<or>
        (includes (toLowerCase (texts events ! i)) ''time'' \<and>
         ts1 ! i = ''It is '' @ clock1 (2 + 2 * i) \<and>
         ts2 ! i = ''It is '' @ clock2 (2 + 2 * i))) \<and>
     map type (produced d1) = map type (produced d2) \<and>
     (list_all (\<lambda>message. \<not> includes (toLowerCase message) ''time'') (texts events)
        \<longrightarrow> produced d1 = produced d2)"
proof -
  let ?d1 = "answers clock1 reliable (greeted reliable) (texts events)"
  let ?d2 = "answers clock2 reliable (greeted reliable) (texts events)"
  let ?ts1 = "replies clock1 (Dialog_at_listen, 2) (texts events)"
  let ?ts2 = "replies clock2 (Dialog_at_listen, 2) (texts events)"
  have c1: "connection (dialog_iter_next clock1) reliable dialog events = Some ?d1"
    by (rule connection_dialog) (rule reliable_never_throws)
  have c2: "connection (dialog_iter_next clock2) reliable dialog events = Some ?d2"
    by (rule connection_dialog) (rule reliable_never_throws)
  have p1: "produced ?d1 = [say ''Welcome to \"Do what I say BOT\"'', listen]
      @ concat (map (\<lambda>t. [say t, listen]) ?ts1)"
    by (simp add: produced_answers greeted_def)
  have p2: "produced ?d2 = [say ''Welcome to \"Do what I say BOT\"'', listen]
      @ concat (map (\<lambda>t. [say t, listen]) ?ts2)"
    by (simp add: produced_answers greeted_def)
  have l: "length ?ts1 = length (texts events)" "length ?ts2 = length (texts events)"
    by (simp_all add: length_replies)
  have each: "\<forall>i < length (texts events).
      ?ts1 ! i = ?ts2 ! i \<or>
      (includes (toLowerCase (texts events ! i)) ''time'' \<and>
       ?ts1 ! i = ''It is '' @ clock1 (2 + 2 * i) \<and>
       ?ts2 ! i = ''It is '' @ clock2 (2 + 2 * i))"
    using replies_nth [of _ "texts events" clock1 Dialog_at_listen 2 clock2] by blast
  have types: "map type (produced ?d1) = map type (produced ?d2)"
    by (simp add: produced_answers types_of_replies length_replies)
  have no_time: "produced ?d1 = produced ?d2"
    if "list_all (\<lambda>message. \<not> includes (toLowerCase message) ''time'') (texts events)"
    using replies_without_time [OF that, of clock1 Dialog_at_listen 2 clock2]
    by (simp add: produced_answers greeted_def)
  from c1 c2 p1 p2 l each types no_time show ?thesis
    by blast
qed

theorem script_determinism_but_clock_witness:
  "list_all (\<lambda>message. \<not> includes (toLowerCase message) ''time'')
     (texts [Str ''let's sum'', Str ''3'', Binary, Str ''x'']) \<and>
   map_option produced
     (connection (dialog_iter_next ten_o'clock) reliable dialog
        [Str ''let's sum'', Str ''3'', Binary, Str ''x''])
   = map_option produced
     (connection (dialog_iter_next noon) reliable dialog
        [Str ''let's sum'', Str ''3'', Binary, Str ''x''])"
proof -
  have h: "list_all (\<lambda>message. \<not> includes (toLowerCase message) ''time'')
      (texts [Str ''let's sum'', Str ''3'', Binary, Str ''x''])"
    by code_simp
  from script_determinism_but_clock
    [of ten_o'clock "[Str ''let's sum'', Str ''3'', Binary, Str ''x'']" noon] h
  obtain d1 d2 where
    "connection (dialog_iter_next ten_o'clock) reliable dialog
       [Str ''let's sum'', Str ''3'', Binary, Str ''x''] = Some d1"
    "connection (dialog_iter_next noon) reliable dialog
       [Str ''let's sum'', Str ''3'', Binary, Str ''x''] = Some d2"
    "produced d1 = produced d2"
    by blast
  with h show ?thesis
    by simp
qed

text \<open>
  The sentence of the specification fails as it stands: on the single message "time", a run
  at ten o'clock and a run at noon produce different effects.
\<close>

theorem script_determinism_counterexample:
  "map_option produced (connection (dialog_iter_next ten_o'clock) reliable dialog [Str ''time''])
     = Some [say ''Welcome to \"Do what I say BOT\"'', listen, say ''It is 10:00:00'', listen] \<and>
   map_option produced (connection (dialog_iter_next noon) reliable dialog [Str ''time''])
     = Some [say ''Welcome to \"Do what I say BOT\"'', listen, say ''It is 12:00:00'', listen] \<and>
   map_option produced (connection (dialog_iter_next ten_o'clock) reliable dialog [Str ''time''])
     \<noteq> map_option produced (connection (dialog_iter_next noon) reliable dialog [Str ''time''])"
  by code_simp

text \<open>
  C5 (sum sub-dialogue). On the messages "let's sum", "3", "4", "done" the effects the
  script produces are the welcome and a listen, then
  \<^verbatim>\<open>say("Okay, what numbers should we sum?")\<close>, listen, \<^verbatim>\<open>say("Got it!")\<close>, listen,
  \<^verbatim>\<open>say("Got it!")\<close>, listen, \<^verbatim>\<open>say("The result is: 7")\<close>, and the listen of the outer
  loop. In general, after a message that opens the sum sub-dialogue, every message that
  \<^verbatim>\<open>Number\<close> converts to a number is answered with "Got it!", and the first message that
  it converts to NaN is answered with the text of the total: the numbers before it, added
  one after the other to 0 as \<^verbatim>\<open>+=\<close> adds doubles. When the messages are integers and
  the sum of their magnitudes is at most \<open>2^53\<close>, that total is their sum as integers.
\<close>

theorem sum_sub_dialogue:
  "map_option produced
     (connection (dialog_iter_next clock) reliable dialog
        [Str ''let's sum'', Str ''3'', Str ''4'', Str ''done''])
   = Some [say ''Welcome to \"Do what I say BOT\"'', listen,
           say ''Okay, what numbers should we sum?'', listen,
           say ''Got it!'', listen,
           say ''Got it!'', listen,
           say ''The result is: 7'', listen] \<and>
   (\<not> includes (toLowerCase trigger) ''time'' \<and> includes (toLowerCase trigger) ''sum'' \<and>
    list_all (\<lambda>message. \<not> isNaN (Number message)) messages \<and>
    isNaN (Number stop) \<longrightarrow>
    map_option produced
      (connection (dialog_iter_next clock) reliable dialog
         (Str trigger # map Str messages @ [Str stop]))
    = Some ([say ''Welcome to \"Do what I say BOT\"'', listen,
             say ''Okay, what numbers should we sum?'', listen]
            @ concat (replicate (length messages) [say ''Got it!'', listen])
            @ [say (''The result is: ''
                    @ toString (foldl add (Whole 0) (map Number messages))), listen])) \<and>
   (map Number messages = map Whole ns \<and> sum_list (map abs ns) \<le> 9007199254740992 \<longrightarrow>
    foldl add (Whole 0) (map Number messages) = Whole (sum_list ns)) \<and>
   (\<not> includes (toLowerCase trigger) ''time'' \<and> includes (toLowerCase trigger) ''sum'' \<and>
    map Number messages = map Whole ns \<and> sum_list (map abs ns) \<le> 9007199254740992 \<and>
    isNaN (Number stop) \<longrightarrow>
    map_option produced
      (connection (dialog_iter_next clock) reliable dialog
         (Str trigger # map Str messages @ [Str stop]))
    = Some ([say ''Welcome to \"Do what I say BOT\"'', listen,
             say ''Okay, what numbers should we sum?'', listen]
            @ concat (replicate (length messages) [say ''Got it!'', listen])
            @ [say (''The result is: '' @ toString (Whole (sum_list ns))), listen]))"
proof (intro conjI impI)
  have trigger: "\<not> includes (toLowerCase ''let's sum'') ''time''"
    "includes (toLowerCase ''let's sum'') ''sum''"
    by code_simp+
  have numbers: "list_all (\<lambda>message. \<not> isNaN (Number message)) [''3'', ''4'']"
    by code_simp
  have stop: "isNaN (Number ''done'')"
    by code_simp
  have shown: "toString (foldl add (Whole 0) (map Number [''3'', ''4''])) = ''7''"
    by code_simp
  from sum_conversation [OF trigger numbers stop, of clock]
  show "map_option produced
     (connection (dialog_iter_next clock) reliable dialog
        [Str ''let's sum'', Str ''3'', Str ''4'', Str ''done''])
   = Some [say ''Welcome to \"Do what I say BOT\"'', listen,
           say ''Okay, what numbers should we sum?'', listen,
           say ''Got it!'', listen,
           say ''Got it!'', listen,
           say ''The result is: 7'', listen]"
    unfolding shown by (simp add: numeral_2_eq_2)
next
  assume "\<not> includes (toLowerCase trigger) ''time'' \<and> includes (toLowerCase trigger) ''sum'' \<and>
    list_all (\<lambda>message. \<not> isNaN (Number message)) messages \<and> isNaN (Number stop)"
  then show "map_option produced
      (connection (dialog_iter_next clock) reliable dialog
         (Str trigger # map Str messages @ [Str stop]))
    = Some ([say ''Welcome to \"Do what I say BOT\"'', listen,
             say ''Okay, what numbers should we sum?'', listen]
            @ concat (replicate (length messages) [say ''Got it!'', listen])
            @ [say (''The result is: ''
                    @ toString (foldl add (Whole 0) (map Number messages))), listen])"
    using sum_conversation by blast
next
  assume "map Number messages = map Whole ns \<and> sum_list (map abs ns) \<le> 9007199254740992"
  then show "foldl add (Whole 0) (map Number messages) = Whole (sum_list ns)"
    using whole_numbers(2) by blast
next
  assume h: "\<not> includes (toLowerCase trigger) ''time'' \<and> includes (toLowerCase trigger) ''sum'' \<and>
    map Number messages = map Whole ns \<and> sum_list (map abs ns) \<le> 9007199254740992 \<and>
    isNaN (Number stop)"
  then have w: "map Number messages = map Whole ns" "sum_list (map abs ns) \<le> 9007199254740992"
    by simp_all
  from h have t: "\<not> includes (toLowerCase trigger) ''time''" "includes (toLowerCase trigger) ''sum''"
    and st: "isNaN (Number stop)"
    by simp_all
  show "map_option produced
      (connection (dialog_iter_next clock) reliable dialog
         (Str trigger # map Str messages @ [Str stop]))
    = Some ([say ''Welcome to \"Do what I say BOT\"'', listen,
             say ''Okay, what numbers should we sum?'', listen]
            @ concat (replicate (length messages) [say ''Got it!'', listen])
            @ [say (''The result is: '' @ toString (Whole (sum_list ns))), listen])"
    using sum_conversation [OF t whole_numbers(1) [OF w] st, of clock]
    by (simp only: whole_numbers(2) [OF w])
qed

theorem sum_sub_dialogue_witness:
  "\<not> includes (toLowerCase ''sum'') ''time'' \<and> includes (toLowerCase ''sum'') ''sum'' \<and>
   list_all (\<lambda>message. \<not> isNaN (Number message)) [''1.5'', ''0x10'', ''1e3'', ''0.1'', ''0.2''] \<and>
   isNaN (Number ''.'') \<and>
   map_option produced
     (connection (dialog_iter_next noon) reliable dialog
        [Str ''sum'', Str ''1.5'', Str ''0x10'', Str ''1e3'', Str ''0.1'', Str ''0.2'', Str ''.''])
   = Some [say ''Welcome to \"Do what I say BOT\"'', listen,
           say ''Okay, what numbers should we sum?'', listen,
           say ''Got it!'', listen, say ''Got it!'', listen, say ''Got it!'', listen,
           say ''Got it!'', listen, say ''Got it!'', listen,
           say ''The result is: 1017.8000000000001'', listen] \<and>
   map Number [''10'', '''', ''-3''] = map Whole [10, 0, - 3] \<and>
   sum_list (map abs [10, 0, - 3 :: int]) \<le> 9007199254740992 \<and>
   foldl add (Whole 0) (map Number [''10'', '''', ''-3'']) = Whole 7 \<and>
   map_option produced
     (connection (dialog_iter_next noon) reliable dialog
        [Str ''sum'', Str ''10'', Str '''', Str ''-3'', Str ''.''])
   = Some [say ''Welcome to \"Do what I say BOT\"'', listen,
           say ''Okay, what numbers should we sum?'', listen,
           say ''Got it!'', listen, say ''Got it!'', listen, say ''Got it!'', listen,
           say ''The result is: 7'', listen]"
proof -
  have h: "\<not> includes (toLowerCase ''sum'') ''time'' \<and> includes (toLowerCase ''sum'') ''sum'' \<and>
      list_all (\<lambda>message. \<not> isNaN (Number message)) [''1.5'', ''0x10'', ''1e3'', ''0.1'', ''0.2''] \<and>
      isNaN (Number ''.'')"
    by code_simp
  have shown: "toString (foldl add (Whole 0) (map Number [''1.5'', ''0x10'', ''1e3'', ''0.1'', ''0.2'']))
      = ''1017.8000000000001''"
    by code_simp
  have w: "map Number [''10'', '''', ''-3''] = map Whole [10, 0, - 3] \<and>
      sum_list (map abs [10, 0, - 3 :: int]) \<le> 9007199254740992"
    by code_simp
  have seven: "toString (Whole (sum_list [10, 0, - 3])) = ''7''"
    by code_simp
  note inst = sum_sub_dialogue [of noon "''sum''" _ "''.''"]
  from inst [of "[''1.5'', ''0x10'', ''1e3'', ''0.1'', ''0.2'']"] h
  have "map_option produced
     (connection (dialog_iter_next noon) reliable dialog
        (Str ''sum'' # map Str [''1.5'', ''0x10'', ''1e3'', ''0.1'', ''0.2''] @ [Str ''.'']))
    = Some ([say ''Welcome to \"Do what I say BOT\"'', listen,
             say ''Okay, what numbers should we sum?'', listen]
            @ concat (replicate (length [''1.5'', ''0x10'', ''1e3'', ''0.1'', ''0.2''])
                        [say ''Got it!'', listen])
            @ [say (''The result is: ''
                    @ toString (foldl add (Whole 0)
                        (map Number [''1.5'', ''0x10'', ''1e3'', ''0.1'', ''0.2'']))), listen])"
    by blast
  then have a: "map_option produced
     (connection (dialog_iter_next noon) reliable dialog
        [Str ''sum'', Str ''1.5'', Str ''0x10'', Str ''1e3'', Str ''0.1'', Str ''0.2'', Str ''.''])
   = Some [say ''Welcome to \"Do what I say BOT\"'', listen,
           say ''Okay, what numbers should we sum?'', listen,
           say ''Got it!'', listen, say ''Got it!'', listen, say ''Got it!'', listen,
           say ''Got it!'', listen, say ''Got it!'', listen,
           say ''The result is: 1017.8000000000001'', listen]"
    unfolding shown by (simp add: eval_nat_numeral)
  from inst [of "[''10'', '''', ''-3'']" "[10, 0, - 3]"] h w
  have "foldl add (Whole 0) (map Number [''10'', '''', ''-3'']) = Whole (sum_list [10, 0, - 3])"
    and "map_option produced
     (connection (dialog_iter_next noon) reliable dialog
        (Str ''sum'' # map Str [''10'', '''', ''-3''] @ [Str ''.'']))
    = Some ([say ''Welcome to \"Do what I say BOT\"'', listen,
             say ''Okay, what numbers should we sum?'', listen]
            @ concat (replicate (length [''10'', '''', ''-3'']) [say ''Got it!'', listen])
            @ [say (''The result is: '' @ toString (Whole (sum_list [10, 0, - 3]))), listen])"
    by blast+
  then have b: "foldl add (Whole 0) (map Number [''10'', '''', ''-3'']) = Whole 7"
    and c: "map_option produced
     (connection (dialog_iter_next noon) reliable dialog
        [Str ''sum'', Str ''10'', Str '''', Str ''-3'', Str ''.''])
   = Some [say ''Welcome to \"Do what I say BOT\"'', listen,
           say ''Okay, what numbers should we sum?'', listen,
           say ''Got it!'', listen, say ''Got it!'', listen, say ''Got it!'', listen,
           say ''The result is: 7'', listen]"
    unfolding seven by (simp_all add: eval_nat_numeral)
  from h w a b c show ?thesis
    by blast
qed

text \<open>
  C9 (the empty string is a number). \<^verbatim>\<open>Number("")\<close> is \<open>0\<close>, not NaN. At either
  \<^verbatim>\<open>yield listen()\<close> of \<^verbatim>\<open>sumSubDialog\<close> the empty message does not end the loop: it is
  added to the running total and answered with \<^verbatim>\<open>say("Got it!")\<close>, and the next advance
  yields a listen. On the messages "sum", "", "5", "", "x" the driver sends three times
  "Got it!" and then the total 5.
\<close>

theorem empty_string_is_numeric:
  "Number '''' = Whole 0 \<and>
   \<not> isNaN (Number '''') \<and>
   sumSubDialog_next (Sum_at_first_listen result) ''''
     = (yields (say ''Got it!''), Sum_at_got_it (add result (Whole 0))) \<and>
   sumSubDialog_next (Sum_at_listen result) ''''
     = (yields (say ''Got it!''), Sum_at_got_it (add result (Whole 0))) \<and>
   sumSubDialog_next (Sum_at_got_it (add result (Whole 0))) received
     = (yields listen, Sum_at_listen (add result (Whole 0))) \<and>
   dialog_next now (Dialog_in_sum (Sum_at_listen result)) ''''
     = (yields (say ''Got it!''), Dialog_in_sum (Sum_at_got_it (add result (Whole 0)))) \<and>
   add (Whole 5) (Whole 0) = Whole 5 \<and>
   map_option produced
     (connection (dialog_iter_next clock) reliable dialog
        [Str ''sum'', Str '''', Str ''5'', Str '''', Str ''x''])
   = Some [say ''Welcome to \"Do what I say BOT\"'', listen,
           say ''Okay, what numbers should we sum?'', listen,
           say ''Got it!'', listen, say ''Got it!'', listen, say ''Got it!'', listen,
           say ''The result is: 5'', listen]"
proof -
  have zero: "Number '''' = Whole 0"
    by (simp add: Number_def trim_def)
  have steps: "sumSubDialog_loop result '''' = (yields (say ''Got it!''), Sum_at_got_it (add result (Whole 0)))"
    by (simp add: sumSubDialog_loop_def zero isNaN_def)
  have h: "\<not> includes (toLowerCase ''sum'') ''time''" "includes (toLowerCase ''sum'') ''sum''"
    by code_simp+
  have numbers: "list_all (\<lambda>message. \<not> isNaN (Number message)) ['''', ''5'', '''']"
    by code_simp
  have stop: "isNaN (Number ''x'')"
    by code_simp
  have shown: "toString (foldl add (Whole 0) (map Number ['''', ''5'', ''''])) = ''5''"
    by code_simp
  from sum_conversation [OF h numbers stop, of clock]
  have run: "map_option produced
     (connection (dialog_iter_next clock) reliable dialog
        [Str ''sum'', Str '''', Str ''5'', Str '''', Str ''x''])
   = Some [say ''Welcome to \"Do what I say BOT\"'', listen,
           say ''Okay, what numbers should we sum?'', listen,
           say ''Got it!'', listen, say ''Got it!'', listen, say ''Got it!'', listen,
           say ''The result is: 5'', listen]"
    unfolding shown by (simp add: numeral_3_eq_3)
  have five: "add (Whole 5) (Whole 0) = Whole 5"
    by code_simp
  show ?thesis
    using zero steps run five
    by (simp add: isNaN_def yield_star_def yields_def)
qed

text \<open>
  C10 ("time" before "sum"). A message whose lower case contains both "time" and "sum",
  received at the \<^verbatim>\<open>yield listen()\<close> of \<^verbatim>\<open>dialog\<close>, is answered with the time: the
  script is then suspended at the \<^verbatim>\<open>yield say\<close> of the time branch, not inside
  \<^verbatim>\<open>yield*\<close>, and its next advance is the \<^verbatim>\<open>yield listen()\<close> of the loop. On a new
  connection that receives such a message the effects are the welcome, a listen, the time
  and a listen.
\<close>

theorem time_before_sum:
  assumes "includes (toLowerCase message) ''time''"
    and "includes (toLowerCase message) ''sum''"
  shows "dialog_next now Dialog_at_listen message
           = (yields (say (''It is '' @ now)), Dialog_at_time) \<and>
         dialog_next now' Dialog_at_time received = (yields listen, Dialog_at_listen) \<and>
         map_option produced (connection (dialog_iter_next clock) reliable dialog [Str message])
           = Some [say ''Welcome to \"Do what I say BOT\"'', listen,
                   say (''It is '' @ clock 2), listen] \<and>
         map_option iter (connection (dialog_iter_next clock) reliable dialog [Str message])
           = Some (Dialog_at_listen, 4)"
proof -
  have "connection (dialog_iter_next clock) reliable dialog [Str message]
      = Some (answer clock reliable message (greeted reliable))"
    using connection_dialog [OF reliable_never_throws, where clock = clock and events = "[Str message]"]
    by simp
  with assms(1) show ?thesis
    by (simp add: answer_def greeted_def dialog_loop_def Let_def)
qed

theorem time_before_sum_witness:
  "includes (toLowerCase ''What TIME is the SUM?'') ''time'' \<and>
   includes (toLowerCase ''What TIME is the SUM?'') ''sum'' \<and>
   dialog_next ''10:00:00'' Dialog_at_listen ''What TIME is the SUM?''
     = (yields (say ''It is 10:00:00''), Dialog_at_time) \<and>
   map_option produced
     (connection (dialog_iter_next ten_o'clock) reliable dialog [Str ''What TIME is the SUM?''])
     = Some [say ''Welcome to \"Do what I say BOT\"'', listen, say ''It is 10:00:00'', listen]"
proof -
  have h: "includes (toLowerCase ''What TIME is the SUM?'') ''time''"
    "includes (toLowerCase ''What TIME is the SUM?'') ''sum''"
    by code_simp+
  from time_before_sum [OF h, of "''10:00:00''" _ _ ten_o'clock] h show ?thesis
    by (simp add: ten_o'clock_def)
qed

section \<open>The driver's guarantees\<close>

text \<open>
  C6 (send failure), as the code has it. When the call of \<^verbatim>\<open>sock.send\<close> for a \<^verbatim>\<open>say\<close>
  effect throws, the driver leaves its loop: the script is not advanced again, nothing more
  is sent, the message is not sent again, and no later event of the socket makes the driver
  go on (the events still reach the channel, whose forwarding task is another task).
\<close>

theorem send_throw_is_fatal:
  assumes "next (iter d) (current d) = (r, g)"
    and "value r = Some effect"
    and "type effect = ''say''"
    and "transport (length (sends d)) = Throws"
  shows "handleWs_loop next transport d
         = Some (d\<lparr>iter := g, produced := produced d @ [effect],
                   sends := sends d @ [(text effect, Throws)], status := Thrown\<rparr>) \<and>
         on_events next transport (handleWs_loop next transport d) events
         = Some (d\<lparr>iter := g, produced := produced d @ [effect],
                   sends := sends d @ [(text effect, Throws)], status := Thrown,
                   incoming := calls_from (incoming d) (map Listen events)\<rparr>)"
proof -
  have stop: "handleWs_loop next transport d
      = Some (d\<lparr>iter := g, produced := produced d @ [effect],
                sends := sends d @ [(text effect, Throws)], status := Thrown\<rparr>)"
    using assms by (subst handleWs_loop.simps) (simp add: Let_def)
  show ?thesis
    unfolding stop by (simp add: on_events_not_awaiting del: call.simps)
qed

theorem send_throw_is_fatal_witness:
  "dialog_iter_next noon dialog '''' = (yields (say ''Welcome to \"Do what I say BOT\"''), (Dialog_at_welcome, 1)) \<and>
   first_send_throws 0 = Throws \<and>
   connection (dialog_iter_next noon) first_send_throws dialog [Str ''hi'']
   = Some \<lparr>iter = (Dialog_at_welcome, 1), current = '''',
           incoming = \<lparr>chan = \<lparr>takers = [], buffer = [''hi'']\<rparr>, settled = [], promises = 0\<rparr>,
           sends = [(Some ''Welcome to \"Do what I say BOT\"'', Throws)],
           produced = [say ''Welcome to \"Do what I say BOT\"''],
           status = Thrown\<rparr>"
proof -
  let ?d = "\<lparr>iter = dialog, current = '''', incoming = new_use, sends = [], produced = [],
      status = Running\<rparr>"
  have n: "dialog_iter_next noon (iter ?d) (current ?d)
      = (yields (say ''Welcome to \"Do what I say BOT\"''), (Dialog_at_welcome, 1))"
    by (simp add: dialog_def)
  have v: "value (yields (say ''Welcome to \"Do what I say BOT\"''))
      = Some (say ''Welcome to \"Do what I say BOT\"'')"
    by (simp add: yields_def)
  have t: "type (say ''Welcome to \"Do what I say BOT\"'') = ''say''"
    by (simp add: say_def)
  have f: "first_send_throws (length (sends ?d)) = Throws"
    by (simp add: first_send_throws_def)
  have after: "on_events (dialog_iter_next noon) first_send_throws
        (handleWs_loop (dialog_iter_next noon) first_send_throws ?d) [Str ''hi'']
      = Some (?d\<lparr>iter := (Dialog_at_welcome, 1),
                produced := produced ?d @ [say ''Welcome to \"Do what I say BOT\"''],
                sends := sends ?d @ [(text (say ''Welcome to \"Do what I say BOT\"''), Throws)],
                status := Thrown,
                incoming := calls_from (incoming ?d) (map Listen [Str ''hi''])\<rparr>)"
    using send_throw_is_fatal [where ?next = "dialog_iter_next noon" and d = ?d
      and r = "yields (say ''Welcome to \"Do what I say BOT\"'')"
      and g = "(Dialog_at_welcome, 1)" and effect = "say ''Welcome to \"Do what I say BOT\"''"
      and transport = first_send_throws and events = "[Str ''hi'']", OF n v t f]
    by (rule conjunct2)
  have conn: "connection (dialog_iter_next noon) first_send_throws dialog [Str ''hi'']
      = on_events (dialog_iter_next noon) first_send_throws
          (handleWs_loop (dialog_iter_next noon) first_send_throws ?d) [Str ''hi'']"
    by (simp only: connection_def handleWs_def)
  have "connection (dialog_iter_next noon) first_send_throws dialog [Str ''hi'']
      = Some \<lparr>iter = (Dialog_at_welcome, 1), current = '''',
           incoming = \<lparr>chan = \<lparr>takers = [], buffer = [''hi'']\<rparr>, settled = [], promises = 0\<rparr>,
           sends = [(Some ''Welcome to \"Do what I say BOT\"'', Throws)],
           produced = [say ''Welcome to \"Do what I say BOT\"''],
           status = Thrown\<rparr>"
    unfolding conn after
    by (simp add: say_def new_use_def new_Channel_def Channel_put_def callTakers_eq)
  moreover have "dialog_iter_next noon dialog ''''
      = (yields (say ''Welcome to \"Do what I say BOT\"''), (Dialog_at_welcome, 1))"
    by (simp add: dialog_def)
  moreover have "first_send_throws 0 = Throws"
    by (simp add: first_send_throws_def)
  ultimately show ?thesis
    by (simp only: simp_thms)
qed

text \<open>
  The sentence of the specification fails for a send whose failure is reported through the promise it
  returns, which \<^verbatim>\<open>handleWs\<close> drops. The send of the welcome is rejected, and
  \<^verbatim>\<open>handleWs\<close> goes on in the same turn: it advances the script, which yields
  \<^verbatim>\<open>listen\<close>, and calls \<^verbatim>\<open>take()\<close>.
\<close>

theorem send_failure_counterexample:
  "first_send_rejected 0 = Rejects \<and>
   map_option sends (handleWs (dialog_iter_next noon) first_send_rejected dialog)
   = Some [(Some ''Welcome to \"Do what I say BOT\"'', Rejects)] \<and>
   map_option produced (handleWs (dialog_iter_next noon) first_send_rejected dialog)
   = Some [say ''Welcome to \"Do what I say BOT\"'', listen] \<and>
   map_option iter (handleWs (dialog_iter_next noon) first_send_rejected dialog)
   = Some (Dialog_at_listen, 2) \<and>
   map_option incoming (handleWs (dialog_iter_next noon) first_send_rejected dialog)
   = Some \<lparr>chan = \<lparr>takers = [0], buffer = []\<rparr>, settled = [], promises = 1\<rparr> \<and>
   map_option status (handleWs (dialog_iter_next noon) first_send_rejected dialog)
   = Some (Awaiting 0 False)"
  by code_simp

text \<open>
  C7 (unrecognized effect). When the script yields an effect whose \<^verbatim>\<open>type\<close> is neither
  "say" nor "listen", the cycle of the loop changes nothing but the generator: nothing is
  sent, nothing is taken from the channel, \<^verbatim>\<open>current\<close> keeps its value, and the loop does
  what it does from its head with the advanced generator, which receives that same
  \<^verbatim>\<open>current\<close>.
\<close>

theorem unrecognized_effect_is_skipped:
  assumes "next (iter d) (current d) = (r, g)"
    and "value r = Some effect"
    and "type effect \<noteq> ''say''"
    and "type effect \<noteq> ''listen''"
    and "\<not> done r"
  shows "handleWs_loop next transport d
         = handleWs_loop next transport (d\<lparr>iter := g, produced := produced d @ [effect]\<rparr>) \<and>
         sends (d\<lparr>iter := g, produced := produced d @ [effect]\<rparr>) = sends d \<and>
         incoming (d\<lparr>iter := g, produced := produced d @ [effect]\<rparr>) = incoming d \<and>
         current (d\<lparr>iter := g, produced := produced d @ [effect]\<rparr>) = current d"
  using assms by (subst handleWs_loop.simps) (simp add: Let_def)

theorem unrecognized_effect_is_skipped_witness:
  "probe_next Probe_at_listen ''hello'' = (yields \<lparr>type = ''pause'', text = None\<rparr>, Probe_at_pause) \<and>
   ''pause'' \<noteq> ''say'' \<and> ''pause'' \<noteq> ''listen'' \<and>
   \<not> done (yields \<lparr>type = ''pause'', text = None\<rparr>) \<and>
   handleWs_loop probe_next reliable
     \<lparr>iter = Probe_at_listen, current = ''hello'',
      incoming = \<lparr>chan = \<lparr>takers = [], buffer = []\<rparr>, settled = [(0, ''hello'')], promises = 1\<rparr>,
      sends = [], produced = [listen], status = Running\<rparr>
   = Some \<lparr>iter = Probe_returned, current = ''hello'',
           incoming = \<lparr>chan = \<lparr>takers = [], buffer = []\<rparr>, settled = [(0, ''hello'')], promises = 1\<rparr>,
           sends = [(Some ''hello'', Sent), (Some ''bye'', Sent)],
           produced = [listen, \<lparr>type = ''pause'', text = None\<rparr>, say ''hello'', say ''bye''],
           status = Returned\<rparr>"
proof -
  let ?d = "\<lparr>iter = Probe_at_listen, current = ''hello'',
      incoming = \<lparr>chan = \<lparr>takers = [], buffer = []\<rparr>, settled = [(0, ''hello'')], promises = 1\<rparr>,
      sends = [], produced = [listen], status = Running\<rparr>"
  let ?pause = "\<lparr>type = ''pause'', text = None\<rparr>"
  have n: "probe_next (iter ?d) (current ?d) = (yields ?pause, Probe_at_pause)"
    by simp
  have v: "value (yields ?pause) = Some ?pause"
    by (simp add: yields_def)
  have t: "type ?pause \<noteq> ''say''" "type ?pause \<noteq> ''listen''"
    by simp_all
  have nd: "\<not> done (yields ?pause)"
    by (simp add: yields_def)
  have skip: "handleWs_loop probe_next reliable ?d
      = handleWs_loop probe_next reliable (?d\<lparr>iter := Probe_at_pause, produced := produced ?d @ [?pause]\<rparr>)"
    using unrecognized_effect_is_skipped [where ?next = probe_next and d = ?d
      and r = "yields ?pause" and g = Probe_at_pause and effect = ?pause
      and transport = reliable, OF n v t nd]
    by (rule conjunct1)
  have rest: "handleWs_loop probe_next reliable (?d\<lparr>iter := Probe_at_pause, produced := produced ?d @ [?pause]\<rparr>)
      = Some \<lparr>iter = Probe_returned, current = ''hello'',
           incoming = \<lparr>chan = \<lparr>takers = [], buffer = []\<rparr>, settled = [(0, ''hello'')], promises = 1\<rparr>,
           sends = [(Some ''hello'', Sent), (Some ''bye'', Sent)],
           produced = [listen, ?pause, say ''hello'', say ''bye''],
           status = Returned\<rparr>"
    by code_simp
  show ?thesis
    unfolding skip rest using nd by simp
qed

text \<open>
  C8 (the last effect). When \<^verbatim>\<open>iter.next\<close> returns no effect the driver leaves the loop
  at once, with nothing sent and nothing taken. When it returns an effect together with
  \<^verbatim>\<open>done\<close>, the effect is interpreted first: a \<^verbatim>\<open>say\<close> is sent and then the driver
  returns (or is left by the exception of the send); for a \<^verbatim>\<open>listen\<close> the driver calls
  \<^verbatim>\<open>take()\<close> and returns once its promise is resolved, at once when a message was
  buffered, and otherwise when the driver, suspended with \<^verbatim>\<open>done\<close> set, is resumed.
\<close>

theorem final_effect_is_interpreted:
  assumes "next (iter d) (current d) = (r, g)"
  shows "(value r = None \<longrightarrow>
            handleWs_loop next transport d = Some (d\<lparr>iter := g, status := Returned\<rparr>)) \<and>
         (value r = Some effect \<and> done r \<and> type effect = ''say'' \<longrightarrow>
            handleWs_loop next transport d
            = Some (d\<lparr>iter := g, produced := produced d @ [effect],
                      sends := sends d @ [(text effect, transport (length (sends d)))],
                      status := (if transport (length (sends d)) = Throws then Thrown
                                 else Returned)\<rparr>)) \<and>
         (value r = Some effect \<and> done r \<and> type effect = ''listen'' \<longrightarrow>
            handleWs_loop next transport d
            = Some (case map_of (settled (call Take (incoming d))) (promises (incoming d)) of
                      None \<Rightarrow>
                        d\<lparr>iter := g, produced := produced d @ [effect],
                          incoming := call Take (incoming d),
                          status := Awaiting (promises (incoming d)) True\<rparr>
                    | Some payload \<Rightarrow>
                        d\<lparr>iter := g, produced := produced d @ [effect],
                          incoming := call Take (incoming d),
                          current := payload, status := Returned\<rparr>)) \<and>
         resume next transport payload True d' = Some (d'\<lparr>current := payload, status := Returned\<rparr>)"
proof (intro conjI impI)
  assume "value r = None"
  with assms show "handleWs_loop next transport d = Some (d\<lparr>iter := g, status := Returned\<rparr>)"
    by (subst handleWs_loop.simps) simp
next
  assume "value r = Some effect \<and> done r \<and> type effect = ''say''"
  with assms show "handleWs_loop next transport d
            = Some (d\<lparr>iter := g, produced := produced d @ [effect],
                      sends := sends d @ [(text effect, transport (length (sends d)))],
                      status := (if transport (length (sends d)) = Throws then Thrown
                                 else Returned)\<rparr>)"
    by (subst handleWs_loop.simps) (simp add: Let_def split: send_outcome.splits)
next
  assume "value r = Some effect \<and> done r \<and> type effect = ''listen''"
  with assms show "handleWs_loop next transport d
            = Some (case map_of (settled (call Take (incoming d))) (promises (incoming d)) of
                      None \<Rightarrow>
                        d\<lparr>iter := g, produced := produced d @ [effect],
                          incoming := call Take (incoming d),
                          status := Awaiting (promises (incoming d)) True\<rparr>
                    | Some payload \<Rightarrow>
                        d\<lparr>iter := g, produced := produced d @ [effect],
                          incoming := call Take (incoming d),
                          current := payload, status := Returned\<rparr>)"
    by (subst handleWs_loop.simps) (simp add: Let_def split: option.splits del: call.simps)
next
  show "resume next transport payload True d' = Some (d'\<lparr>current := payload, status := Returned\<rparr>)"
    by (simp add: resume_def)
qed

theorem final_effect_is_interpreted_witness:
  "probe_next Probe_returned ''hello'' = (\<lparr>value = None, done = True\<rparr>, Probe_returned) \<and>
   handleWs_loop probe_next reliable
     \<lparr>iter = Probe_returned, current = ''hello'', incoming = new_use, sends = [], produced = [],
      status = Running\<rparr>
   = Some \<lparr>iter = Probe_returned, current = ''hello'', incoming = new_use, sends = [],
           produced = [], status = Returned\<rparr> \<and>
   probe_next Probe_at_say ''hello'' = (\<lparr>value = Some (say ''bye''), done = True\<rparr>, Probe_returned) \<and>
   type (say ''bye'') = ''say'' \<and>
   handleWs_loop probe_next reliable
     \<lparr>iter = Probe_at_say, current = ''hello'', incoming = new_use, sends = [], produced = [],
      status = Running\<rparr>
   = Some \<lparr>iter = Probe_returned, current = ''hello'', incoming = new_use,
           sends = [(Some ''bye'', Sent)], produced = [say ''bye''], status = Returned\<rparr> \<and>
   last_listen_next False '''' = (\<lparr>value = Some listen, done = True\<rparr>, True) \<and>
   type listen = ''listen'' \<and>
   handleWs_loop last_listen_next reliable
     \<lparr>iter = False, current = '''', incoming = new_use, sends = [], produced = [],
      status = Running\<rparr>
   = Some \<lparr>iter = True, current = '''',
           incoming = \<lparr>chan = \<lparr>takers = [0], buffer = []\<rparr>, settled = [], promises = 1\<rparr>,
           sends = [], produced = [listen], status = Awaiting 0 True\<rparr> \<and>
   connection last_listen_next reliable False [Str ''x'']
   = Some \<lparr>iter = True, current = ''x'',
           incoming = \<lparr>chan = \<lparr>takers = [], buffer = []\<rparr>, settled = [(0, ''x'')], promises = 1\<rparr>,
           sends = [], produced = [listen], status = Returned\<rparr>"
proof -
  let ?a = "\<lparr>iter = Probe_returned, current = ''hello'', incoming = new_use, sends = [],
      produced = [], status = Running\<rparr>"
  let ?b = "\<lparr>iter = Probe_at_say, current = ''hello'', incoming = new_use, sends = [],
      produced = [], status = Running\<rparr>"
  let ?c = "\<lparr>iter = False, current = '''', incoming = new_use, sends = [], produced = [],
      status = Running\<rparr>"
  have na: "probe_next (iter ?a) (current ?a) = (\<lparr>value = None, done = True\<rparr>, Probe_returned)"
    by (simp add: returns_def)
  have nb: "probe_next (iter ?b) (current ?b)
      = (\<lparr>value = Some (say ''bye''), done = True\<rparr>, Probe_returned)"
    by simp
  have nc: "last_listen_next (iter ?c) (current ?c) = (\<lparr>value = Some listen, done = True\<rparr>, True)"
    by simp
  have a: "handleWs_loop probe_next reliable ?a
      = Some \<lparr>iter = Probe_returned, current = ''hello'', incoming = new_use, sends = [],
           produced = [], status = Returned\<rparr>"
    using final_effect_is_interpreted [where ?next = probe_next and d = ?a
        and r = "\<lparr>value = None, done = True\<rparr>" and g = Probe_returned
        and transport = reliable, OF na]
    by simp
  have b: "handleWs_loop probe_next reliable ?b
      = Some \<lparr>iter = Probe_returned, current = ''hello'', incoming = new_use,
           sends = [(Some ''bye'', Sent)], produced = [say ''bye''], status = Returned\<rparr>"
    using final_effect_is_interpreted [where ?next = probe_next and d = ?b
        and r = "\<lparr>value = Some (say ''bye''), done = True\<rparr>" and g = Probe_returned
        and effect = "say ''bye''" and transport = reliable, OF nb]
    by (simp add: say_def reliable_def)
  have c: "handleWs_loop last_listen_next reliable ?c
      = Some \<lparr>iter = True, current = '''',
           incoming = \<lparr>chan = \<lparr>takers = [0], buffer = []\<rparr>, settled = [], promises = 1\<rparr>,
           sends = [], produced = [listen], status = Awaiting 0 True\<rparr>"
    using final_effect_is_interpreted [where ?next = last_listen_next and d = ?c
        and r = "\<lparr>value = Some listen, done = True\<rparr>" and g = True
        and effect = listen and transport = reliable, OF nc]
    by (simp add: listen_def new_use_def new_Channel_def Channel_take_def callTakers_eq)
  have e: "connection last_listen_next reliable False [Str ''x'']
      = Some \<lparr>iter = True, current = ''x'',
           incoming = \<lparr>chan = \<lparr>takers = [], buffer = []\<rparr>, settled = [(0, ''x'')], promises = 1\<rparr>,
           sends = [], produced = [listen], status = Returned\<rparr>"
    by code_simp
  show ?thesis
    unfolding a b c e
    by (simp add: returns_def say_def listen_def)
qed

end
